theory Spec2Isabelle
  imports Main "HOL-Library.Word" "HOL-Library.AList" "HOL-Library.Code_Target_Numeral"
begin

section \<open>Strings and objects of the host language\<close>

text \<open>
  A JavaScript string is a sequence of 16-bit code units. String literals of the source
  are written with \<open>ascii\<close>. The empty string is the only falsy string, so
  \<open>a || b\<close> on strings is \<open>str_or\<close>, and on a possibly undefined string \<open>opt_or\<close>.
\<close>

type_synonym jsstring = "16 word list"

definition ascii :: "string \<Rightarrow> jsstring" where
  "ascii cs = map (\<lambda>c. of_nat (of_char c)) cs"

definition str_or :: "jsstring \<Rightarrow> jsstring \<Rightarrow> jsstring" where
  "str_or a b = (if a \<noteq> [] then a else b)"

fun opt_or :: "jsstring option \<Rightarrow> jsstring \<Rightarrow> jsstring" where
  "opt_or None b = b"
| "opt_or (Some a) b = str_or a b"

text \<open>
  \<open>xs.indexOf(x)\<close> is \<open>-1\<close> when \<open>x\<close> is absent; \<open>xs[i]\<close> is undefined
  (\<open>None\<close>) out of range.
\<close>

fun indexOf :: "'a list \<Rightarrow> 'a \<Rightarrow> int" where
  "indexOf [] x = -1"
| "indexOf (y # ys) x =
     (if y = x then 0 else (let r = indexOf ys x in if r < 0 then -1 else r + 1))"

definition at_index :: "'a list \<Rightarrow> int \<Rightarrow> 'a option" where
  "at_index xs i = (if 0 \<le> i \<and> i < int (length xs) then Some (xs ! nat i) else None)"

text \<open>Ranges of code units, and the decimal digits.\<close>

definition in_range :: "16 word \<Rightarrow> nat \<Rightarrow> nat \<Rightarrow> bool" where
  "in_range c lo hi = (lo \<le> unat c \<and> unat c \<le> hi)"

definition is_digit :: "16 word \<Rightarrow> bool" where
  "is_digit c = in_range c 48 57"

section \<open>Data model\<close>

datatype StepId = Started | Validated | It_sent | It_ok | Hob_sent | Hob_ok | Unisolate | Done

datatype Role = Operator | It | Hob

fun id_str :: "StepId \<Rightarrow> jsstring" where
  "id_str Started = ascii ''started''"
| "id_str Validated = ascii ''validated''"
| "id_str It_sent = ascii ''it_sent''"
| "id_str It_ok = ascii ''it_ok''"
| "id_str Hob_sent = ascii ''hob_sent''"
| "id_str Hob_ok = ascii ''hob_ok''"
| "id_str Unisolate = ascii ''unisolate''"
| "id_str Done = ascii ''done''"

fun role_str :: "Role \<Rightarrow> jsstring" where
  "role_str Operator = ascii ''operator''"
| "role_str It = ascii ''it''"
| "role_str Hob = ascii ''hob''"

text \<open>The step catalog \<open>STEPS\<close>: identifier and label, in workflow order.\<close>

definition STEPS :: "(StepId \<times> jsstring) list" where
  "STEPS =
    [(Started, ascii ''Unisolation started''),
     (Validated, ascii ''Inputs validated''),
     (It_sent, ascii ''IT email sent''),
     (It_ok, ascii ''IT approved''),
     (Hob_sent, ascii ''HOB email sent''),
     (Hob_ok, ascii ''HOB approved''),
     (Unisolate, ascii ''Unisolation requested''),
     (Done, ascii ''Completed'')]"

record LogEntry =
  ts :: jsstring
  who :: Role
  what :: jsstring

text \<open>
  \<open>completed\<close> is a JavaScript object: its keys are kept in insertion order, writing an
  existing key replaces the value in place (\<open>AList.update\<close>), reading is \<open>map_of\<close>.

  The interface \<open>TrackerState\<close> declares the five context fields as strings, and
  the context inputs write strings there: a state of the declared type is a
  \<open>jsstring TrackerState\<close>. The declaration is not checked when a seed is read from
  a fragment or from the local store, where \<open>initial\<close> keeps whatever value the seed
  holds: what \<open>initial\<close> returns is a \<open>json TrackerState\<close> (the type \<open>json\<close>
  of values is defined below). So the record has the type of these five fields as a
  parameter; what does not read them (\<open>setActive\<close>, \<open>reset\<close>, \<open>nextFor\<close>,
  \<open>advance\<close>) is defined for every such type, and what builds a key or a text from
  them (\<open>toKey\<close>, the effect, \<open>share\<close>) for the declared type.
\<close>

record 'v TrackerState =
  incidentId :: 'v
  machineId :: 'v
  machineName :: 'v
  upn :: 'v
  bu :: 'v
  active :: StepId
  completed :: "(StepId \<times> jsstring) list"
  log :: "LogEntry list"
  readonly :: bool

definition DEFAULT_STEP :: StepId where
  "DEFAULT_STEP = Started"

section \<open>Values and the initial state\<close>

text \<open>
  JavaScript values as far as \<open>JSON\<close> knows them. An object keeps its members in
  insertion order. A number is kept as the text of its literal; the states of a session
  hold none.
\<close>

datatype json =
    JNull
  | JBool bool
  | JNum jsstring
  | JStr jsstring
  | JArr "json list"
  | JObj "(jsstring \<times> json) list"

text \<open>Reading a property of a value: \<open>None\<close> is \<open>undefined\<close>.\<close>

fun get_field :: "json \<Rightarrow> jsstring \<Rightarrow> json option" where
  "get_field (JObj kvs) k = map_of kvs k"
| "get_field v k = None"

text \<open>
  \<open>ToBoolean\<close>: \<open>null\<close>, \<open>false\<close>, the empty string and the numbers \<open>+0\<close> and
  \<open>-0\<close> are falsy (JSON has no \<open>NaN\<close>), every other value is truthy, also the
  empty array and the empty object. A number literal, sign apart, is made of the digits
  of an integer part, of a fraction and of an exponent, and denotes \<open>m * 10^e\<close>, with
  \<open>m\<close> the number written by the digits of the integer part and the fraction, and
  \<open>e\<close> the exponent less the number of digits of the fraction. Its Number value, the
  nearest double, is zero exactly when \<open>m * 10^e\<close> is at most \<open>2^-1075\<close>, half of the
  least positive double.
\<close>

definition digits_val :: "jsstring \<Rightarrow> nat" where
  "digits_val ds = foldl (\<lambda>a c. a * 10 + (unat c - 48)) 0 ds"

definition literal_is_zero :: "jsstring \<Rightarrow> bool" where
  "literal_is_zero lit =
    (let body = (if take 1 lit = [0x2D] then drop 1 lit else lit);
         ip = takeWhile is_digit body;
         r1 = dropWhile is_digit body;
         fp = (if take 1 r1 = [0x2E] then takeWhile is_digit (drop 1 r1) else []);
         r2 = (if take 1 r1 = [0x2E] then dropWhile is_digit (drop 1 r1) else r1);
         r3 = drop 1 r2;
         ep = (if take 1 r3 = [0x2D] \<or> take 1 r3 = [0x2B] then drop 1 r3 else r3);
         m = digits_val (ip @ fp);
         e = (if take 1 r3 = [0x2D] then - int (digits_val ep) else int (digits_val ep))
               - int (length fp)
     in m = 0 \<or> (e < 0 \<and> m * 2 ^ 1075 \<le> 10 ^ nat (- e)))"

fun truthy :: "json \<Rightarrow> bool" where
  "truthy JNull = False"
| "truthy (JBool b) = b"
| "truthy (JNum n) = (\<not> literal_is_zero n)"
| "truthy (JStr s) = (s \<noteq> [])"
| "truthy (JArr vs) = True"
| "truthy (JObj kvs) = True"

text \<open>
  \<open>a || b\<close> and \<open>!!a\<close> on a property that may be \<open>undefined\<close> (\<open>None\<close>), which
  is falsy.
\<close>

fun js_or :: "json option \<Rightarrow> json \<Rightarrow> json" where
  "js_or None b = b"
| "js_or (Some a) b = (if truthy a then a else b)"

fun to_boolean :: "json option \<Rightarrow> bool" where
  "to_boolean None = False"
| "to_boolean (Some a) = truthy a"

text \<open>
  \<open>initial\<close> finalises the seed that \<open>bootstrap\<close> returned; \<open>now\<close> is the
  reading of the clock (\<open>new Date().toISOString()\<close>). Reading a property of \<open>null\<close>
  raises \<open>TypeError\<close>; reading one of a string, a number, a boolean or an array
  gives \<open>undefined\<close> for the names read here.
\<close>

datatype error = TypeError

definition initial :: "json \<Rightarrow> jsstring \<Rightarrow> error + json TrackerState" where
  "initial seed now =
    (if seed = JNull then Inl TypeError
     else Inr
      \<lparr> incidentId = js_or (get_field seed (ascii ''incidentId'')) (JStr []),
        machineId = js_or (get_field seed (ascii ''machineId'')) (JStr []),
        machineName = js_or (get_field seed (ascii ''machineName'')) (JStr []),
        upn = js_or (get_field seed (ascii ''upn'')) (JStr []),
        bu = js_or (get_field seed (ascii ''bu'')) (JStr []),
        active = DEFAULT_STEP,
        completed = [(Started, now)],
        log = [\<lparr> ts = now, who = Operator, what = ascii ''Tracker created'' \<rparr>],
        readonly = to_boolean (get_field seed (ascii ''readonly'')) \<rparr>)"

section \<open>State machine\<close>

text \<open>
  An event handler either returns without calling \<open>setState\<close> (\<open>None\<close>) or calls it
  with an updater, whose result on the current state is \<open>Some\<close> new state.
\<close>

definition setActive :: "StepId \<Rightarrow> Role \<Rightarrow> jsstring option \<Rightarrow> jsstring \<Rightarrow> 'v TrackerState \<Rightarrow> 'v TrackerState option" where
  "setActive sid r note t s =
    (if readonly s then None
     else Some (s\<lparr> active := sid,
                   completed := AList.update sid (opt_or (map_of (completed s) sid) t) (completed s),
                   log := log s @ [\<lparr> ts = t, who = r,
                                     what = opt_or note (ascii ''Moved to: '' @ id_str sid) \<rparr>] \<rparr>))"

definition reset :: "bool \<Rightarrow> jsstring \<Rightarrow> 'v TrackerState \<Rightarrow> 'v TrackerState option" where
  "reset confirmed now s =
    (if \<not> confirmed then None
     else Some \<lparr> incidentId = incidentId s,
                 machineId = machineId s,
                 machineName = machineName s,
                 upn = upn s,
                 bu = bu s,
                 active = DEFAULT_STEP,
                 completed = [(Started, now)],
                 log = [\<lparr> ts = now, who = Operator, what = ascii ''Tracker reset'' \<rparr>],
                 readonly = False \<rparr>)"

definition nextFor :: "Role \<Rightarrow> 'v TrackerState \<Rightarrow> StepId option" where
  "nextFor r state =
    (let sid = active state;
         order = map fst STEPS;
         i = indexOf order sid;
         next = at_index order (i + 1)
     in case next of
          None \<Rightarrow> None
        | Some nxt \<Rightarrow>
            if r = Operator then Some nxt
            else if r = It \<and> (sid = It_sent \<or> sid = It_ok \<or> sid = Validated) then Some It_ok
            else if r = Hob \<and> (sid = Hob_sent \<or> sid = Hob_ok \<or> sid = It_ok) then Some Hob_ok
            else None)"

definition step_label :: "StepId \<Rightarrow> jsstring" where
  "step_label n = (case find (\<lambda>s. fst s = n) STEPS of
                     None \<Rightarrow> id_str n
                   | Some s \<Rightarrow> str_or (snd s) (id_str n))"

text \<open>
  \<open>advance\<close> returns the update, if any, and the text of the alert, if any. The arrow
  of the note is the code unit U+2192.
\<close>

definition advance_note :: "Role \<Rightarrow> StepId \<Rightarrow> jsstring" where
  "advance_note role n = role_str role @ ascii '' advanced '' @ [0x2192] @ ascii '' '' @ step_label n"

definition denial :: jsstring where
  "denial = ascii ''No permitted next step for this role.''"

definition advance :: "Role \<Rightarrow> jsstring \<Rightarrow> 'v TrackerState \<Rightarrow> 'v TrackerState option \<times> jsstring option" where
  "advance role t s =
    (case nextFor role s of
       None \<Rightarrow> (None, Some denial)
     | Some n \<Rightarrow> (setActive n role (Some (advance_note role n)) t s, None))"

text \<open>The context inputs: each \<open>onChange\<close> writes one field, whatever \<open>readonly\<close> is.\<close>

datatype Field = IncidentId | MachineId | MachineName | Upn | Bu

fun setField :: "Field \<Rightarrow> jsstring \<Rightarrow> jsstring TrackerState \<Rightarrow> jsstring TrackerState option" where
  "setField IncidentId v s = Some (s\<lparr> incidentId := v \<rparr>)"
| "setField MachineId v s = Some (s\<lparr> machineId := v \<rparr>)"
| "setField MachineName v s = Some (s\<lparr> machineName := v \<rparr>)"
| "setField Upn v s = Some (s\<lparr> upn := v \<rparr>)"
| "setField Bu v s = Some (s\<lparr> bu := v \<rparr>)"

text \<open>The state after a handler ran from state \<open>s\<close>.\<close>

definition after :: "'v TrackerState \<Rightarrow> 'v TrackerState option \<Rightarrow> 'v TrackerState" where
  "after s u = (case u of None \<Rightarrow> s | Some s' \<Rightarrow> s')"

section \<open>Serialisation\<close>

text \<open>More classes of code units, and hexadecimal digits.\<close>

definition is_alnum :: "16 word \<Rightarrow> bool" where
  "is_alnum c = (is_digit c \<or> in_range c 65 90 \<or> in_range c 97 122)"

definition is_hex :: "16 word \<Rightarrow> bool" where
  "is_hex c = (is_digit c \<or> in_range c 65 70 \<or> in_range c 97 102)"

definition hex_val :: "16 word \<Rightarrow> nat" where
  "hex_val c = (if is_digit c then unat c - 48 else if in_range c 65 70 then unat c - 55 else unat c - 87)"

definition hex_num :: "jsstring \<Rightarrow> nat" where
  "hex_num cs = foldl (\<lambda>a c. a * 16 + hex_val c) 0 cs"

definition hex_lower :: "nat \<Rightarrow> 16 word" where
  "hex_lower n = (if n < 10 then of_nat (48 + n) else of_nat (87 + n))"

definition hex_upper :: "nat \<Rightarrow> 16 word" where
  "hex_upper n = (if n < 10 then of_nat (48 + n) else of_nat (55 + n))"

definition is_lead :: "16 word \<Rightarrow> bool" where
  "is_lead c = in_range c 0xD800 0xDBFF"

definition is_trail :: "16 word \<Rightarrow> bool" where
  "is_trail c = in_range c 0xDC00 0xDFFF"

definition UnicodeEscape :: "16 word \<Rightarrow> jsstring" where
  "UnicodeEscape c =
    (let n = unat c
     in [0x5C, 0x75, hex_lower (n div 4096), hex_lower (n div 256 mod 16),
         hex_lower (n div 16 mod 16), hex_lower (n mod 16)])"

text \<open>
  \<open>QuoteJSONString\<close>: the string is read by code points; the short escapes, then
  \<open>\\uXXXX\<close> for control characters and for surrogates that are not part of a pair,
  and every other code point as it is.
\<close>

fun quote_body :: "jsstring \<Rightarrow> jsstring" where
  "quote_body [] = []"
| "quote_body (c # cs) =
    (if c = 0x08 then [0x5C, 0x62] @ quote_body cs
     else if c = 0x09 then [0x5C, 0x74] @ quote_body cs
     else if c = 0x0A then [0x5C, 0x6E] @ quote_body cs
     else if c = 0x0C then [0x5C, 0x66] @ quote_body cs
     else if c = 0x0D then [0x5C, 0x72] @ quote_body cs
     else if c = 0x22 then [0x5C, 0x22] @ quote_body cs
     else if c = 0x5C then [0x5C, 0x5C] @ quote_body cs
     else if unat c < 0x20 then UnicodeEscape c @ quote_body cs
     else if is_lead c then
       (case cs of
          [] \<Rightarrow> UnicodeEscape c
        | d # ds \<Rightarrow> if is_trail d then c # d # quote_body ds
                    else UnicodeEscape c @ quote_body cs)
     else if is_trail c then UnicodeEscape c @ quote_body cs
     else c # quote_body cs)"

definition QuoteJSONString :: "jsstring \<Rightarrow> jsstring" where
  "QuoteJSONString s = [0x22] @ quote_body s @ [0x22]"

text \<open>\<open>JSON.stringify\<close> without indentation.\<close>

fun JSON_stringify :: "json \<Rightarrow> jsstring"
  and stringify_elems :: "json list \<Rightarrow> jsstring"
  and stringify_members :: "(jsstring \<times> json) list \<Rightarrow> jsstring" where
  "JSON_stringify JNull = ascii ''null''"
| "JSON_stringify (JBool b) = (if b then ascii ''true'' else ascii ''false'')"
| "JSON_stringify (JNum n) = n"
| "JSON_stringify (JStr s) = QuoteJSONString s"
| "JSON_stringify (JArr vs) = [0x5B] @ stringify_elems vs @ [0x5D]"
| "JSON_stringify (JObj kvs) = [0x7B] @ stringify_members kvs @ [0x7D]"
| "stringify_elems [] = []"
| "stringify_elems [v] = JSON_stringify v"
| "stringify_elems (v # w # vs) = JSON_stringify v @ [0x2C] @ stringify_elems (w # vs)"
| "stringify_members [] = []"
| "stringify_members [(k, v)] = QuoteJSONString k @ [0x3A] @ JSON_stringify v"
| "stringify_members ((k, v) # m # ms) =
     QuoteJSONString k @ [0x3A] @ JSON_stringify v @ [0x2C] @ stringify_members (m # ms)"

text \<open>The tracker state as the JavaScript object it is, with its keys in the order
  in which \<open>initial\<close> and \<open>reset\<close> create them and the updaters keep them.\<close>

definition js_of_entry :: "LogEntry \<Rightarrow> json" where
  "js_of_entry e =
    JObj [(ascii ''ts'', JStr (ts e)),
          (ascii ''who'', JStr (role_str (who e))),
          (ascii ''what'', JStr (what e))]"

definition js_of_state :: "jsstring TrackerState \<Rightarrow> json" where
  "js_of_state s =
    JObj [(ascii ''incidentId'', JStr (incidentId s)),
          (ascii ''machineId'', JStr (machineId s)),
          (ascii ''machineName'', JStr (machineName s)),
          (ascii ''upn'', JStr (upn s)),
          (ascii ''bu'', JStr (bu s)),
          (ascii ''active'', JStr (id_str (active s))),
          (ascii ''completed'', JObj (map (\<lambda>(k, v). (id_str k, JStr v)) (completed s))),
          (ascii ''log'', JArr (map js_of_entry (log s))),
          (ascii ''readonly'', JBool (readonly s))]"

section \<open>Persistence\<close>

text \<open>\<open>localStorage\<close> maps keys to values.\<close>

type_synonym storage = "jsstring \<rightharpoonup> jsstring"

definition toKey :: "jsstring \<Rightarrow> jsstring \<Rightarrow> jsstring" where
  "toKey i m = ascii ''unisov2:'' @ i @ ascii '':'' @ m"

text \<open>The body of the effect (\<open>useEffect\<close> on \<open>[state]\<close>), which runs after the first render and
  after every render with a new state.\<close>

definition persist :: "jsstring TrackerState \<Rightarrow> storage \<Rightarrow> storage" where
  "persist state ls =
    (if readonly state then ls
     else if incidentId state = [] \<or> machineId state = [] then ls
     else ls(toKey (incidentId state) (machineId state) \<mapsto> JSON_stringify (js_of_state state)))"

text \<open>
  The events of a session, each with the reading of the clock it takes and, for
  \<open>reset\<close>, the answer to the confirmation dialog. A handler that calls \<open>setState\<close>
  causes a render, after which the effect runs on the new state.
\<close>

datatype event =
    Advance Role jsstring
  | Edit Field jsstring
  | Reset bool jsstring

fun handle :: "event \<Rightarrow> jsstring TrackerState \<Rightarrow> jsstring TrackerState option" where
  "handle (Advance r t) s = fst (advance r t s)"
| "handle (Edit f v) s = setField f v s"
| "handle (Reset confirmed now) s = reset confirmed now s"

definition step :: "event \<Rightarrow> jsstring TrackerState \<times> storage \<Rightarrow> jsstring TrackerState \<times> storage" where
  "step e c =
    (case handle e (fst c) of
       None \<Rightarrow> c
     | Some s' \<Rightarrow> (s', persist s' (snd c)))"

fun run :: "event list \<Rightarrow> jsstring TrackerState \<times> storage \<Rightarrow> jsstring TrackerState \<times> storage" where
  "run [] c = c"
| "run (e # es) c = run es (step e c)"

section \<open>The snapshot codec\<close>

text \<open>
  \<open>share\<close> and \<open>bootstrap\<close> compose functions of the platform. They are defined
  here as their standards define them: \<open>encodeURIComponent\<close>, \<open>decodeURIComponent\<close>,
  \<open>escape\<close>, \<open>unescape\<close>, \<open>JSON.stringify\<close> and \<open>JSON.parse\<close> after ECMAScript,
  \<open>btoa\<close> and \<open>atob\<close> after HTML and the forgiving Base64 of the Infra standard.
\<close>

subsection \<open>UTF-8 and percent-encoding\<close>

text \<open>
  The octets of a code point in UTF-8, the code point of a surrogate pair, and the
  code units of a code point.
\<close>

definition utf8 :: "nat \<Rightarrow> nat list" where
  "utf8 cp =
    (if cp < 0x80 then [cp]
     else if cp < 0x800 then [0xC0 + cp div 64, 0x80 + cp mod 64]
     else if cp < 0x10000 then [0xE0 + cp div 4096, 0x80 + cp div 64 mod 64, 0x80 + cp mod 64]
     else [0xF0 + cp div 262144, 0x80 + cp div 4096 mod 64, 0x80 + cp div 64 mod 64,
           0x80 + cp mod 64])"

definition pair_cp :: "16 word \<Rightarrow> 16 word \<Rightarrow> nat" where
  "pair_cp c d = 0x10000 + (unat c - 0xD800) * 0x400 + (unat d - 0xDC00)"

definition utf16 :: "nat \<Rightarrow> jsstring" where
  "utf16 cp =
    (if cp < 0x10000 then [of_nat cp]
     else [of_nat (0xD800 + (cp - 0x10000) div 0x400), of_nat (0xDC00 + (cp - 0x10000) mod 0x400)])"

definition pct :: "nat \<Rightarrow> jsstring" where
  "pct b = [0x25, hex_upper (b div 16), hex_upper (b mod 16)]"

text \<open>
  \<open>encodeURIComponent\<close>: letters, digits and \<open>- _ . ! ~ * ' ( )\<close> stay; every other
  code point is written as the escaped octets of its UTF-8 form. A surrogate that is not
  part of a pair raises \<open>URIError\<close> (\<open>None\<close>).
\<close>

definition uri_unescaped :: "16 word \<Rightarrow> bool" where
  "uri_unescaped c = (is_alnum c \<or> c \<in> set [0x2D, 0x5F, 0x2E, 0x21, 0x7E, 0x2A, 0x27, 0x28, 0x29])"

fun encodeURIComponent :: "jsstring \<Rightarrow> jsstring option" where
  "encodeURIComponent [] = Some []"
| "encodeURIComponent (c # cs) =
    (if uri_unescaped c then map_option ((#) c) (encodeURIComponent cs)
     else if is_trail c then None
     else if is_lead c then
       (case cs of
          [] \<Rightarrow> None
        | d # ds \<Rightarrow>
            if is_trail d
            then map_option ((@) (concat (map pct (utf8 (pair_cp c d))))) (encodeURIComponent ds)
            else None)
     else map_option ((@) (concat (map pct (utf8 (unat c))))) (encodeURIComponent cs))"

text \<open>
  \<open>unescape\<close>: \<open>%uXXXX\<close> and \<open>%XX\<close> become the code unit of that value, anything
  else stays.
\<close>

function unescape :: "jsstring \<Rightarrow> jsstring" where
  "unescape [] = []"
| "unescape (c # cs) =
    (if c = 0x25 \<and> 5 \<le> length cs \<and> hd cs = 0x75 \<and> list_all is_hex (take 4 (tl cs))
     then of_nat (hex_num (take 4 (tl cs))) # unescape (drop 5 cs)
     else if c = 0x25 \<and> 2 \<le> length cs \<and> list_all is_hex (take 2 cs)
     then of_nat (hex_num (take 2 cs)) # unescape (drop 2 cs)
     else c # unescape cs)"
  by pat_completeness auto
termination
  by (relation "measure length") auto

text \<open>
  \<open>escape\<close>: letters, digits and \<open>@ * _ + - . /\<close> stay; a code unit below 256
  becomes \<open>%XX\<close>, any other \<open>%uXXXX\<close>.
\<close>

definition escape_unescaped :: "16 word \<Rightarrow> bool" where
  "escape_unescaped c = (is_alnum c \<or> c \<in> set [0x40, 0x2A, 0x5F, 0x2B, 0x2D, 0x2E, 0x2F])"

definition escape_unit :: "16 word \<Rightarrow> jsstring" where
  "escape_unit c =
    (let n = unat c
     in if escape_unescaped c then [c]
        else if n < 256 then pct n
        else [0x25, 0x75, hex_upper (n div 4096), hex_upper (n div 256 mod 16),
              hex_upper (n div 16 mod 16), hex_upper (n mod 16)])"

definition escape :: "jsstring \<Rightarrow> jsstring" where
  "escape s = concat (map escape_unit s)"

text \<open>
  \<open>decodeURIComponent\<close>: an escaped octet below 128 is its character; an escaped
  sequence of two to four octets must be the UTF-8 form of a code point: continuation
  octets in \<open>80..BF\<close>, the shortest form, no surrogate, at most \<open>10FFFF\<close>. Anything
  else after a \<open>%\<close> raises \<open>URIError\<close>.
\<close>

definition pct_octet :: "jsstring \<Rightarrow> nat option" where
  "pct_octet s =
    (if 3 \<le> length s \<and> hd s = 0x25 \<and> list_all is_hex (take 2 (tl s))
     then Some (hex_num (take 2 (tl s))) else None)"

fun pct_octets :: "nat \<Rightarrow> jsstring \<Rightarrow> nat list option" where
  "pct_octets 0 s = Some []"
| "pct_octets (Suc k) s =
    (case pct_octet s of
       None \<Rightarrow> None
     | Some b \<Rightarrow> map_option ((#) b) (pct_octets k (drop 3 s)))"

definition utf8_length :: "nat \<Rightarrow> nat" where
  "utf8_length b =
    (if b < 0x80 then 0 else if b < 0xC0 then 1 else if b < 0xE0 then 2
     else if b < 0xF0 then 3 else if b < 0xF8 then 4 else 5)"

definition is_cont :: "nat \<Rightarrow> bool" where
  "is_cont b = (0x80 \<le> b \<and> b \<le> 0xBF)"

fun utf8_decode :: "nat list \<Rightarrow> nat option" where
  "utf8_decode [a, b] =
    (let cp = (a - 0xC0) * 64 + (b - 0x80)
     in if is_cont b \<and> 0x80 \<le> cp then Some cp else None)"
| "utf8_decode [a, b, c] =
    (let cp = (a - 0xE0) * 4096 + (b - 0x80) * 64 + (c - 0x80)
     in if is_cont b \<and> is_cont c \<and> 0x800 \<le> cp \<and> \<not> (0xD800 \<le> cp \<and> cp \<le> 0xDFFF)
        then Some cp else None)"
| "utf8_decode [a, b, c, d] =
    (let cp = (a - 0xF0) * 262144 + (b - 0x80) * 4096 + (c - 0x80) * 64 + (d - 0x80)
     in if is_cont b \<and> is_cont c \<and> is_cont d \<and> 0x10000 \<le> cp \<and> cp \<le> 0x10FFFF
        then Some cp else None)"
| "utf8_decode bs = None"

function decodeURIComponent :: "jsstring \<Rightarrow> jsstring option" where
  "decodeURIComponent [] = Some []"
| "decodeURIComponent (c # cs) =
    (if c \<noteq> 0x25 then map_option ((#) c) (decodeURIComponent cs)
     else
       (case pct_octet (c # cs) of
          None \<Rightarrow> None
        | Some b \<Rightarrow>
            let n = utf8_length b
            in if n = 0 then map_option ((#) (of_nat b)) (decodeURIComponent (drop 2 cs))
               else if n = 1 \<or> 4 < n then None
               else
                 (case pct_octets (n - 1) (drop 2 cs) of
                    None \<Rightarrow> None
                  | Some bs \<Rightarrow>
                      (case utf8_decode (b # bs) of
                         None \<Rightarrow> None
                       | Some cp \<Rightarrow>
                           map_option ((@) (utf16 cp))
                             (decodeURIComponent (drop (3 * n - 1) cs))))))"
  by pat_completeness auto
termination
  by (relation "measure length") auto

subsection \<open>Base64\<close>

text \<open>\<open>btoa\<close> raises \<open>InvalidCharacterError\<close> on a code unit above 255.\<close>

definition b64_char :: "nat \<Rightarrow> 16 word" where
  "b64_char n =
    (if n < 26 then of_nat (65 + n)
     else if n < 52 then of_nat (71 + n)
     else if n < 62 then of_nat (n - 4)
     else if n = 62 then 0x2B
     else 0x2F)"

fun base64_encode :: "nat list \<Rightarrow> jsstring" where
  "base64_encode [] = []"
| "base64_encode [a] = [b64_char (a div 4), b64_char (a mod 4 * 16), 0x3D, 0x3D]"
| "base64_encode [a, b] =
    [b64_char (a div 4), b64_char (a mod 4 * 16 + b div 16), b64_char (b mod 16 * 4), 0x3D]"
| "base64_encode (a # b # c # bs) =
    [b64_char (a div 4), b64_char (a mod 4 * 16 + b div 16),
     b64_char (b mod 16 * 4 + c div 64), b64_char (c mod 64)] @ base64_encode bs"

definition btoa :: "jsstring \<Rightarrow> jsstring option" where
  "btoa s = (if list_all (\<lambda>c. unat c \<le> 0xFF) s then Some (base64_encode (map unat s)) else None)"

text \<open>
  \<open>atob\<close>: ASCII whitespace is dropped; if the length is then a multiple of four, one
  or two \<open>=\<close> at the end are dropped; a length of one above a multiple of four, or a
  character outside the alphabet, raises \<open>InvalidCharacterError\<close>.
\<close>

definition is_b64 :: "16 word \<Rightarrow> bool" where
  "is_b64 c = (is_alnum c \<or> c = 0x2B \<or> c = 0x2F)"

definition b64_val :: "16 word \<Rightarrow> nat" where
  "b64_val c =
    (if in_range c 65 90 then unat c - 65
     else if in_range c 97 122 then unat c - 71
     else if is_digit c then unat c + 4
     else if c = 0x2B then 62
     else 63)"

fun base64_decode :: "nat list \<Rightarrow> nat list" where
  "base64_decode (a # b # c # d # vs) =
    [a * 4 + b div 16, b mod 16 * 16 + c div 4, c mod 4 * 64 + d] @ base64_decode vs"
| "base64_decode [a, b, c] = [a * 4 + b div 16, b mod 16 * 16 + c div 4]"
| "base64_decode [a, b] = [a * 4 + b div 16]"
| "base64_decode vs = []"

definition is_ascii_ws :: "16 word \<Rightarrow> bool" where
  "is_ascii_ws c = (c \<in> set [0x09, 0x0A, 0x0C, 0x0D, 0x20])"

definition strip_padding :: "jsstring \<Rightarrow> jsstring" where
  "strip_padding d =
    (if 2 \<le> length d \<and> last d = 0x3D \<and> last (butlast d) = 0x3D then butlast (butlast d)
     else if d \<noteq> [] \<and> last d = 0x3D then butlast d
     else d)"

definition atob :: "jsstring \<Rightarrow> jsstring option" where
  "atob data =
    (let d1 = filter (\<lambda>c. \<not> is_ascii_ws c) data;
         d2 = (if length d1 mod 4 = 0 then strip_padding d1 else d1)
     in if length d2 mod 4 = 1 then None
        else if \<not> list_all is_b64 d2 then None
        else Some (map of_nat (base64_decode (map b64_val d2))))"

subsection \<open>\<open>JSON.parse\<close>\<close>

definition is_json_ws :: "16 word \<Rightarrow> bool" where
  "is_json_ws c = (c \<in> set [0x09, 0x0A, 0x0D, 0x20])"

definition skip_ws :: "jsstring \<Rightarrow> jsstring" where
  "skip_ws s = dropWhile is_json_ws s"

text \<open>The character an escape \<open>\\c\<close> stands for.\<close>

definition simple_escape :: "16 word \<Rightarrow> 16 word option" where
  "simple_escape e =
    (if e = 0x22 then Some 0x22
     else if e = 0x5C then Some 0x5C
     else if e = 0x2F then Some 0x2F
     else if e = 0x62 then Some 0x08
     else if e = 0x66 then Some 0x0C
     else if e = 0x6E then Some 0x0A
     else if e = 0x72 then Some 0x0D
     else if e = 0x74 then Some 0x09
     else None)"

definition cons_fst :: "'a \<Rightarrow> ('a list \<times> 'b) option \<Rightarrow> ('a list \<times> 'b) option" where
  "cons_fst x r = (case r of None \<Rightarrow> None | Some (xs, rest) \<Rightarrow> Some (x # xs, rest))"

text \<open>The characters of a string literal after its opening quote, and what follows
  the closing quote.\<close>

function parse_string_body :: "jsstring \<Rightarrow> (jsstring \<times> jsstring) option" where
  "parse_string_body [] = None"
| "parse_string_body (c # cs) =
    (if c = 0x22 then Some ([], cs)
     else if c = 0x5C then
       (case cs of
          [] \<Rightarrow> None
        | e # es \<Rightarrow>
            if e = 0x75 then
              (if 4 \<le> length es \<and> list_all is_hex (take 4 es)
               then cons_fst (of_nat (hex_num (take 4 es))) (parse_string_body (drop 4 es))
               else None)
            else
              (case simple_escape e of
                 None \<Rightarrow> None
               | Some u \<Rightarrow> cons_fst u (parse_string_body es)))
     else if unat c < 0x20 then None
     else cons_fst c (parse_string_body cs))"
  by pat_completeness auto
termination
  by (relation "measure length") auto

text \<open>A number literal: sign, integer part without a leading zero, fraction, exponent.\<close>

definition scan_digits :: "jsstring \<Rightarrow> (jsstring \<times> jsstring) option" where
  "scan_digits s = (if takeWhile is_digit s = [] then None
                    else Some (takeWhile is_digit s, dropWhile is_digit s))"

definition scan_int :: "jsstring \<Rightarrow> (jsstring \<times> jsstring) option" where
  "scan_int s =
    (case scan_digits s of
       None \<Rightarrow> None
     | Some (ds, r) \<Rightarrow> if 1 < length ds \<and> hd ds = 0x30 then None else Some (ds, r))"

definition scan_frac :: "jsstring \<Rightarrow> (jsstring \<times> jsstring) option" where
  "scan_frac s =
    (case s of
       [] \<Rightarrow> Some ([], s)
     | c # cs \<Rightarrow>
         if c = 0x2E
         then (case scan_digits cs of None \<Rightarrow> None | Some (ds, r) \<Rightarrow> Some (c # ds, r))
         else Some ([], s))"

definition scan_exp :: "jsstring \<Rightarrow> (jsstring \<times> jsstring) option" where
  "scan_exp s =
    (case s of
       [] \<Rightarrow> Some ([], s)
     | c # cs \<Rightarrow>
         if c = 0x65 \<or> c = 0x45 then
           (case cs of
              [] \<Rightarrow> None
            | g # gs \<Rightarrow>
                if g = 0x2B \<or> g = 0x2D
                then (case scan_digits gs of None \<Rightarrow> None | Some (ds, r) \<Rightarrow> Some (c # g # ds, r))
                else (case scan_digits cs of None \<Rightarrow> None | Some (ds, r) \<Rightarrow> Some (c # ds, r)))
         else Some ([], s))"

definition parse_number :: "jsstring \<Rightarrow> (jsstring \<times> jsstring) option" where
  "parse_number s =
    (let sign = (if s \<noteq> [] \<and> hd s = 0x2D then [0x2D] else []);
         s0 = drop (length sign) s
     in case scan_int s0 of
          None \<Rightarrow> None
        | Some (i, s1) \<Rightarrow>
            (case scan_frac s1 of
               None \<Rightarrow> None
             | Some (f, s2) \<Rightarrow>
                 (case scan_exp s2 of
                    None \<Rightarrow> None
                  | Some (e, s3) \<Rightarrow> Some (sign @ i @ f @ e, s3))))"

text \<open>
  How an object takes a member. A key that is there keeps its place and gets the new
  value. A new key that is an array index (a canonical decimal below \<open>2^32 - 1\<close>) goes
  among the array indices, in ascending order, before all other keys; any other new key
  goes to the end.
\<close>

definition array_index :: "jsstring \<Rightarrow> nat option" where
  "array_index k =
    (if k \<noteq> [] \<and> list_all is_digit k \<and> (length k = 1 \<or> hd k \<noteq> 0x30)
        \<and> foldl (\<lambda>a c. a * 10 + (unat c - 48)) 0 k < 4294967295
     then Some (foldl (\<lambda>a c. a * 10 + (unat c - 48)) 0 k) else None)"

fun insert_index :: "nat \<Rightarrow> jsstring \<Rightarrow> json \<Rightarrow> (jsstring \<times> json) list \<Rightarrow> (jsstring \<times> json) list" where
  "insert_index i k v [] = [(k, v)]"
| "insert_index i k v ((k', v') # kvs) =
    (case array_index k' of
       None \<Rightarrow> (k, v) # (k', v') # kvs
     | Some j \<Rightarrow> if i < j then (k, v) # (k', v') # kvs else (k', v') # insert_index i k v kvs)"

definition obj_put :: "(jsstring \<times> json) list \<Rightarrow> jsstring \<times> json \<Rightarrow> (jsstring \<times> json) list" where
  "obj_put kvs m =
    (if fst m \<in> set (map fst kvs) then AList.update (fst m) (snd m) kvs
     else case array_index (fst m) of
            None \<Rightarrow> kvs @ [m]
          | Some i \<Rightarrow> insert_index i (fst m) (snd m) kvs)"

definition build_object :: "(jsstring \<times> json) list \<Rightarrow> (jsstring \<times> json) list" where
  "build_object ms = foldl obj_put [] ms"

text \<open>
  The parser. The first argument bounds the number of nested calls; \<open>JSON_parse\<close>
  gives it the length of the text, which no text needs more than (\<open>JSON_parse_complete\<close>
  below).
\<close>

fun parse_value :: "nat \<Rightarrow> jsstring \<Rightarrow> (json \<times> jsstring) option"
  and parse_elems :: "nat \<Rightarrow> jsstring \<Rightarrow> (json list \<times> jsstring) option"
  and parse_members :: "nat \<Rightarrow> jsstring \<Rightarrow> ((jsstring \<times> json) list \<times> jsstring) option" where
  "parse_value 0 s = None"
| "parse_value (Suc n) s =
    (case skip_ws s of
       [] \<Rightarrow> None
     | c # cs \<Rightarrow>
         if c = 0x7B then
           (case skip_ws cs of
              [] \<Rightarrow> None
            | d # ds \<Rightarrow>
                if d = 0x7D then Some (JObj [], ds)
                else (case parse_members n cs of
                        None \<Rightarrow> None
                      | Some (ms, r) \<Rightarrow> Some (JObj (build_object ms), r)))
         else if c = 0x5B then
           (case skip_ws cs of
              [] \<Rightarrow> None
            | d # ds \<Rightarrow>
                if d = 0x5D then Some (JArr [], ds)
                else (case parse_elems n cs of
                        None \<Rightarrow> None
                      | Some (vs, r) \<Rightarrow> Some (JArr vs, r)))
         else if c = 0x22 then
           (case parse_string_body cs of
              None \<Rightarrow> None
            | Some (str, r) \<Rightarrow> Some (JStr str, r))
         else if take 4 (c # cs) = ascii ''true'' then Some (JBool True, drop 4 (c # cs))
         else if take 5 (c # cs) = ascii ''false'' then Some (JBool False, drop 5 (c # cs))
         else if take 4 (c # cs) = ascii ''null'' then Some (JNull, drop 4 (c # cs))
         else (case parse_number (c # cs) of
                 None \<Rightarrow> None
               | Some (num, r) \<Rightarrow> Some (JNum num, r)))"
| "parse_elems 0 s = None"
| "parse_elems (Suc n) s =
    (case parse_value n s of
       None \<Rightarrow> None
     | Some (v, r) \<Rightarrow>
         (case skip_ws r of
            [] \<Rightarrow> None
          | c # cs \<Rightarrow>
              if c = 0x2C then cons_fst v (parse_elems n cs)
              else if c = 0x5D then Some ([v], cs)
              else None))"
| "parse_members 0 s = None"
| "parse_members (Suc n) s =
    (case skip_ws s of
       [] \<Rightarrow> None
     | q # qs \<Rightarrow>
         if q \<noteq> 0x22 then None
         else
           (case parse_string_body qs of
              None \<Rightarrow> None
            | Some (k, r0) \<Rightarrow>
                (case skip_ws r0 of
                   [] \<Rightarrow> None
                 | c # cs \<Rightarrow>
                     if c \<noteq> 0x3A then None
                     else
                       (case parse_value n cs of
                          None \<Rightarrow> None
                        | Some (v, r) \<Rightarrow>
                            (case skip_ws r of
                               [] \<Rightarrow> None
                             | d # ds \<Rightarrow>
                                 if d = 0x2C then cons_fst (k, v) (parse_members n ds)
                                 else if d = 0x7D then Some ([(k, v)], ds)
                                 else None)))))"

definition JSON_parse :: "jsstring \<Rightarrow> json option" where
  "JSON_parse s =
    (case parse_value (length s) s of
       None \<Rightarrow> None
     | Some (v, r) \<Rightarrow> if skip_ws r = [] then Some v else None)"

subsection \<open>Sharing and decoding\<close>

text \<open>The token that \<open>share\<close> computes, and the decoding in \<open>bootstrap\<close>.\<close>

definition share_token :: "jsstring TrackerState \<Rightarrow> jsstring option" where
  "share_token state =
    (let snap = state\<lparr> readonly := True \<rparr>
     in case encodeURIComponent (JSON_stringify (js_of_state snap)) of
          None \<Rightarrow> None
        | Some e \<Rightarrow> btoa (unescape e))"

text \<open>The link that \<open>share\<close> copies, for the page's \<open>origin\<close> and \<open>pathname\<close>.\<close>

definition share :: "jsstring \<Rightarrow> jsstring \<Rightarrow> jsstring TrackerState \<Rightarrow> jsstring option" where
  "share origin pathname state =
    (case share_token state of
       None \<Rightarrow> None
     | Some b64 \<Rightarrow>
         (case encodeURIComponent (incidentId state) of
            None \<Rightarrow> None
          | Some i \<Rightarrow>
              (case encodeURIComponent (machineId state) of
                 None \<Rightarrow> None
               | Some m \<Rightarrow>
                   Some (origin @ pathname @ ascii ''?incidentId='' @ i @ ascii ''&machineId='' @ m
                         @ ascii ''#state='' @ b64))))"

definition decode_token :: "jsstring \<Rightarrow> json option" where
  "decode_token h =
    (case atob h of
       None \<Rightarrow> None
     | Some b \<Rightarrow>
         (case decodeURIComponent (escape b) of
            None \<Rightarrow> None
          | Some t \<Rightarrow> JSON_parse t))"

section \<open>Bootstrap\<close>

text \<open>
  What \<open>bootstrap\<close> reads of the page's address: \<open>url.hash\<close> (empty, or with its
  leading \<open>#\<close>) and \<open>url.searchParams.get\<close>.
\<close>

record location =
  hash :: jsstring
  searchParams :: "jsstring \<Rightarrow> jsstring option"

definition strip_state_prefix :: "jsstring \<Rightarrow> jsstring" where
  "strip_state_prefix h = (if take 7 h = ascii ''#state='' then drop 7 h else h)"

definition url_seed :: "location \<Rightarrow> json" where
  "url_seed url =
    JObj [(ascii ''incidentId'', JStr (opt_or (searchParams url (ascii ''incidentId'')) [])),
          (ascii ''machineId'', JStr (opt_or (searchParams url (ascii ''machineId'')) [])),
          (ascii ''upn'', JStr (opt_or (searchParams url (ascii ''upn'')) [])),
          (ascii ''bu'', JStr (opt_or (searchParams url (ascii ''bu'')) [])),
          (ascii ''machineName'', JStr (opt_or (searchParams url (ascii ''machineName'')) []))]"

definition bootstrap :: "location \<Rightarrow> storage \<Rightarrow> json" where
  "bootstrap url ls =
    (let h = strip_state_prefix (hash url)
     in case (if h \<noteq> [] then decode_token h else None) of
          Some v \<Rightarrow> v
        | None \<Rightarrow>
            (let incidentId = opt_or (searchParams url (ascii ''incidentId'')) [];
                 machineId = opt_or (searchParams url (ascii ''machineId'')) [];
                 cached = ls (toKey incidentId machineId)
             in case (case cached of
                        None \<Rightarrow> None
                      | Some c \<Rightarrow> if c \<noteq> [] then JSON_parse c else None) of
                  Some v \<Rightarrow> v
                | None \<Rightarrow> url_seed url))"

text \<open>
  The first state of the component: \<open>initial\<close> on the seed that \<open>bootstrap\<close>
  returns for the page's address and the local store.
\<close>

definition mount :: "location \<Rightarrow> storage \<Rightarrow> jsstring \<Rightarrow> error + json TrackerState" where
  "mount url ls now = initial (bootstrap url ls) now"

section \<open>Definitions used to state the properties\<close>

text \<open>The successor of a step in the catalog, written out as the specification's table.\<close>

fun linear_successor :: "StepId \<Rightarrow> StepId option" where
  "linear_successor Started = Some Validated"
| "linear_successor Validated = Some It_sent"
| "linear_successor It_sent = Some It_ok"
| "linear_successor It_ok = Some Hob_sent"
| "linear_successor Hob_sent = Some Hob_ok"
| "linear_successor Hob_ok = Some Unisolate"
| "linear_successor Unisolate = Some Done"
| "linear_successor Done = None"

text \<open>A run of \<open>advance\<close> calls, each with its role and its reading of the clock.\<close>

fun advances :: "(Role \<times> jsstring) list \<Rightarrow> 'v TrackerState \<Rightarrow> 'v TrackerState" where
  "advances [] s = s"
| "advances ((r, t) # ops) s = advances ops (after s (fst (advance r t s)))"

text \<open>The persistence key of a state, and the events that edit one of its two parts.\<close>

definition key_of :: "jsstring TrackerState \<Rightarrow> jsstring" where
  "key_of s = toKey (incidentId s) (machineId s)"

fun rekeys :: "event \<Rightarrow> bool" where
  "rekeys (Edit IncidentId v) = True"
| "rekeys (Edit MachineId v) = True"
| "rekeys e = False"

text \<open>
  The state that the handlers of a run of events produce, one after the other, and the
  persistence keys of the states that a run goes through.
\<close>

fun handled :: "event list \<Rightarrow> jsstring TrackerState \<Rightarrow> jsstring TrackerState" where
  "handled [] s = s"
| "handled (e # es) s = handled es (after s (handle e s))"

fun keys_after :: "event list \<Rightarrow> jsstring TrackerState \<times> storage \<Rightarrow> jsstring list" where
  "keys_after [] c = []"
| "keys_after (e # es) c = key_of (fst (step e c)) # keys_after es (step e c)"

text \<open>
  The local store is up to date: the session is not read-only, and when both
  identifiers of the state are non-empty the store holds the serialised state under the
  state's key.
\<close>

definition up_to_date :: "jsstring TrackerState \<times> storage \<Rightarrow> bool" where
  "up_to_date c =
    (\<not> readonly (fst c) \<and>
     (incidentId (fst c) \<noteq> [] \<and> machineId (fst c) \<noteq> [] \<longrightarrow>
        snd c (key_of (fst c)) = Some (JSON_stringify (js_of_state (fst c)))))"

text \<open>
  A state in the middle of the workflow, the same state with text outside ASCII (two
  CJK characters; an emoji, which is a surrogate pair, and an accented letter), and the
  seed that a snapshot of the first decodes to.
\<close>

definition example_state :: "jsstring TrackerState" where
  "example_state =
    \<lparr> incidentId = ascii ''INC1'',
      machineId = ascii ''PC7'',
      machineName = ascii ''lab'',
      upn = [],
      bu = [],
      active = It_ok,
      completed = [(Started, ascii ''t0''), (Validated, ascii ''t1''), (It_ok, ascii ''t2'')],
      log = [\<lparr> ts = ascii ''t0'', who = Operator, what = ascii ''Tracker created'' \<rparr>],
      readonly = False \<rparr>"

definition unicode_state :: "jsstring TrackerState" where
  "unicode_state = example_state\<lparr> machineName := [0x4E2D, 0x6587], bu := [0xD83D, 0xDE00, 0xE9] \<rparr>"

definition snapshot_seed :: json where
  "snapshot_seed = js_of_state (example_state\<lparr> readonly := True \<rparr>)"

text \<open>
  A valid state: \<open>completed\<close>, being an object, has each key once.
\<close>

definition valid_state :: "jsstring TrackerState \<Rightarrow> bool" where
  "valid_state s = distinct (map fst (completed s))"

text \<open>
  Strings in which every surrogate is part of a pair, and the UTF-8 octets of such a
  string.
\<close>

fun well_formed :: "jsstring \<Rightarrow> bool" where
  "well_formed [] = True"
| "well_formed (c # cs) =
    (if is_lead c then (case cs of [] \<Rightarrow> False | d # ds \<Rightarrow> is_trail d \<and> well_formed ds)
     else \<not> is_trail c \<and> well_formed cs)"

fun utf8_units :: "jsstring \<Rightarrow> nat list" where
  "utf8_units [] = []"
| "utf8_units (c # cs) =
    (if is_lead c then (case cs of [] \<Rightarrow> [] | d # ds \<Rightarrow> utf8 (pair_cp c d) @ utf8_units ds)
     else utf8 (unat c) @ utf8_units cs)"

text \<open>The six-bit groups of a sequence of octets, before padding.\<close>

fun sextets :: "nat list \<Rightarrow> nat list" where
  "sextets [] = []"
| "sextets [a] = [a div 4, a mod 4 * 16]"
| "sextets [a, b] = [a div 4, a mod 4 * 16 + b div 16, b mod 16 * 4]"
| "sextets (a # b # c # bs) =
    [a div 4, a mod 4 * 16 + b div 16, b mod 16 * 4 + c div 64, c mod 64] @ sextets bs"

text \<open>What \<open>quote_body\<close> writes for a code unit that is not the first of a pair.\<close>

definition quote_unit :: "16 word \<Rightarrow> jsstring" where
  "quote_unit c =
    (if c = 0x08 then [0x5C, 0x62]
     else if c = 0x09 then [0x5C, 0x74]
     else if c = 0x0A then [0x5C, 0x6E]
     else if c = 0x0C then [0x5C, 0x66]
     else if c = 0x0D then [0x5C, 0x72]
     else if c = 0x22 then [0x5C, 0x22]
     else if c = 0x5C then [0x5C, 0x5C]
     else if unat c < 0x20 \<or> is_lead c \<or> is_trail c then UnicodeEscape c
     else [c])"

text \<open>
  The values that tracker states are made of: no numbers, and objects whose keys are
  distinct and are not array indices. \<open>need\<close> bounds the nesting of the parser's calls
  on the text of a value.
\<close>

fun wf_json :: "json \<Rightarrow> bool"
  and wf_elems :: "json list \<Rightarrow> bool"
  and wf_members :: "(jsstring \<times> json) list \<Rightarrow> bool" where
  "wf_json JNull = True"
| "wf_json (JBool b) = True"
| "wf_json (JNum n) = False"
| "wf_json (JStr s) = True"
| "wf_json (JArr vs) = wf_elems vs"
| "wf_json (JObj ms) =
    (wf_members ms \<and> distinct (map fst ms) \<and> list_all (\<lambda>k. array_index k = None) (map fst ms))"
| "wf_elems [] = True"
| "wf_elems (v # vs) = (wf_json v \<and> wf_elems vs)"
| "wf_members [] = True"
| "wf_members ((k, v) # ms) = (wf_json v \<and> wf_members ms)"

fun need :: "json \<Rightarrow> nat"
  and need_elems :: "json list \<Rightarrow> nat"
  and need_members :: "(jsstring \<times> json) list \<Rightarrow> nat" where
  "need (JArr vs) = Suc (need_elems vs)"
| "need (JObj ms) = Suc (need_members ms)"
| "need v = 1"
| "need_elems [] = 0"
| "need_elems (v # vs) = Suc (need v + need_elems vs)"
| "need_members [] = 0"
| "need_members ((k, v) # ms) = Suc (need v + need_members ms)"

definition value_head :: "16 word \<Rightarrow> bool" where
  "value_head h = (h \<in> set [0x6E, 0x74, 0x66, 0x22, 0x5B, 0x7B])"

text \<open>
  A parse that succeeds with the bound \<open>n\<close> consumes at least one code unit and
  succeeds with every bound from the number of code units it consumes.
\<close>

definition enough_v :: "nat \<Rightarrow> bool" where
  "enough_v n = (\<forall>s v r. parse_value n s = Some (v, r) \<longrightarrow>
      length r < length s \<and> (\<forall>m. length s - length r \<le> m \<longrightarrow> parse_value m s = Some (v, r)))"

definition enough_e :: "nat \<Rightarrow> bool" where
  "enough_e n = (\<forall>s vs r. parse_elems n s = Some (vs, r) \<longrightarrow>
      length r < length s \<and> (\<forall>m. length s - length r \<le> m \<longrightarrow> parse_elems m s = Some (vs, r)))"

definition enough_m :: "nat \<Rightarrow> bool" where
  "enough_m n = (\<forall>s ms r. parse_members n s = Some (ms, r) \<longrightarrow>
      length r < length s \<and> (\<forall>m. length s - length r \<le> m \<longrightarrow> parse_members m s = Some (ms, r)))"

text \<open>
  A page address whose fragment does not decode, with the two identifiers among its
  parameters, and one with such a fragment and no parameters at all.
\<close>

definition broken_url :: location where
  "broken_url =
    \<lparr> hash = ascii ''#state=!'',
      searchParams = (\<lambda>k. if k = ascii ''incidentId'' then Some (ascii ''I'')
                          else if k = ascii ''machineId'' then Some (ascii ''M'') else None) \<rparr>"

definition bare_url :: location where
  "bare_url = \<lparr> hash = ascii ''#state=!'', searchParams = (\<lambda>k. None) \<rparr>"

section \<open>The gating table\<close>

lemma order_STEPS:
  "map fst STEPS = [Started, Validated, It_sent, It_ok, Hob_sent, Hob_ok, Unisolate, Done]"
  by (simp add: STEPS_def)

lemma next_in_order:
  "at_index (map fst STEPS) (indexOf (map fst STEPS) x + 1) = linear_successor x"
  unfolding order_STEPS by (cases x) (simp_all add: at_index_def)

lemma nextFor_eq:
  "nextFor r s =
    (case linear_successor (active s) of
       None \<Rightarrow> None
     | Some nxt \<Rightarrow>
         if r = Operator then Some nxt
         else if r = It \<and> (active s = It_sent \<or> active s = It_ok \<or> active s = Validated) then Some It_ok
         else if r = Hob \<and> (active s = Hob_sent \<or> active s = Hob_ok \<or> active s = It_ok) then Some Hob_ok
         else None)"
  by (simp add: nextFor_def Let_def next_in_order)

text \<open>
  Claim C3. The permitted next step is: for the operator the successor of the active step
  in the catalog (none at \<open>done\<close>); for \<open>it\<close>, \<open>it_ok\<close> exactly from \<open>validated\<close>,
  \<open>it_sent\<close> and \<open>it_ok\<close>; for \<open>hob\<close>, \<open>hob_ok\<close> exactly from \<open>it_ok\<close>,
  \<open>hob_sent\<close> and \<open>hob_ok\<close>; and no role has a permitted step from \<open>done\<close>.
\<close>

theorem nextFor_gating_table:
  "nextFor Operator s = linear_successor (active s)
   \<and> nextFor It s = (if active s \<in> {Validated, It_sent, It_ok} then Some It_ok else None)
   \<and> nextFor Hob s = (if active s \<in> {It_ok, Hob_sent, Hob_ok} then Some Hob_ok else None)
   \<and> nextFor r (s\<lparr>active := Done\<rparr>) = None"
  by (cases "active s") (simp_all add: nextFor_eq)

theorem nextFor_gating_table_witness:
  "nextFor Operator example_state = Some Hob_sent
   \<and> nextFor It example_state = Some It_ok
   \<and> nextFor Hob example_state = Some Hob_ok
   \<and> nextFor Hob (example_state\<lparr>active := Done\<rparr>) = None"
  using nextFor_gating_table [of example_state Hob] by (simp add: example_state_def)

section \<open>Advancing\<close>

lemma advance_note_nonempty: "advance_note r n \<noteq> []"
  by (cases r) (simp_all add: advance_note_def ascii_def)

text \<open>
  Claim C5. On a state that is not read-only, \<open>advance\<close> either finds no permitted step,
  raises the denial alert and leaves the state as it is, or moves \<open>active\<close> to the one
  permitted step, records the clock reading for that step unless a timestamp is already
  there, and appends one audit entry with the clock reading and the role. Nothing else changes.
\<close>

theorem advance_all_or_nothing:
  assumes "\<not> readonly s"
  shows "(nextFor r s = None \<and> advance r t s = (None, Some denial) \<and> after s (fst (advance r t s)) = s)
       \<or> (\<exists>n. nextFor r s = Some n \<and> snd (advance r t s) = None
             \<and> after s (fst (advance r t s)) =
                 s\<lparr>active := n,
                   completed := AList.update n (opt_or (map_of (completed s) n) t) (completed s),
                   log := log s @ [\<lparr>ts = t, who = r, what = advance_note r n\<rparr>]\<rparr>)"
proof (cases "nextFor r s")
  case None
  then show ?thesis by (simp add: advance_def after_def)
next
  case (Some n)
  with assms show ?thesis
    by (simp add: advance_def after_def setActive_def str_or_def advance_note_nonempty)
qed

theorem advance_all_or_nothing_witness:
  "\<not> readonly example_state
   \<and> after example_state (fst (advance Hob (ascii ''t9'') example_state)) =
       example_state\<lparr>active := Hob_ok,
         completed := completed example_state @ [(Hob_ok, ascii ''t9'')],
         log := log example_state @ [\<lparr>ts = ascii ''t9'', who = Hob, what = advance_note Hob Hob_ok\<rparr>]\<rparr>"
proof -
  have h: "\<not> readonly example_state" by (simp add: example_state_def)
  have n: "nextFor Hob example_state = Some Hob_ok" by (simp add: nextFor_eq example_state_def)
  have c: "AList.update Hob_ok (opt_or (map_of (completed example_state) Hob_ok) (ascii ''t9''))
             (completed example_state) = completed example_state @ [(Hob_ok, ascii ''t9'')]"
    by (simp add: example_state_def)
  show ?thesis using h advance_all_or_nothing [OF h, of Hob "ascii ''t9''"] n c by simp
qed

lemma advance_cases:
  "after s (fst (advance r t s)) = s
   \<or> (\<exists>n e. after s (fst (advance r t s)) =
         s\<lparr>active := n,
           completed := AList.update n (opt_or (map_of (completed s) n) t) (completed s),
           log := log s @ [e]\<rparr>)"
  by (cases "nextFor r s") (auto simp: advance_def after_def setActive_def)

lemma advance_keeps:
  assumes "map_of (completed s) st = Some t0" and "t0 \<noteq> []"
  shows "map_of (completed (after s (fst (advance r t s)))) st = Some t0"
  using advance_cases [of s r t] assms
  by (auto simp: update_conv' str_or_def)

lemma advance_dom:
  "dom (map_of (completed s)) \<subseteq> dom (map_of (completed (after s (fst (advance r t s)))))"
  using advance_cases [of s r t] by (auto simp: update_conv')

lemma advance_active:
  assumes "active s \<in> dom (map_of (completed s))"
  shows "active (after s (fst (advance r t s))) \<in> dom (map_of (completed (after s (fst (advance r t s)))))"
  using advance_cases [of s r t] assms by (auto simp: update_conv')

text \<open>
  Claim C6. Over any run of \<open>advance\<close> calls, a timestamp recorded for a step stays as
  it is (a timestamp is a reading of the clock, which is never the empty string; the
  source's \<open>||\<close> takes the empty string for absent), no step leaves the \<open>completed\<close>
  object, and if the active step has an entry at the start, it has one at the end.
\<close>

theorem completed_first_arrival_wins:
  "(\<forall>st t0. map_of (completed s) st = Some t0 \<and> t0 \<noteq> [] \<longrightarrow>
        map_of (completed (advances ops s)) st = Some t0)
   \<and> dom (map_of (completed s)) \<subseteq> dom (map_of (completed (advances ops s)))
   \<and> (active s \<in> dom (map_of (completed s)) \<longrightarrow>
        active (advances ops s) \<in> dom (map_of (completed (advances ops s))))"
proof (induction ops arbitrary: s)
  case Nil
  show ?case by simp
next
  case (Cons op ops)
  obtain r t where op: "op = (r, t)" by (cases op)
  let ?s1 = "after s (fst (advance r t s))"
  note IH = Cons.IH [of ?s1]
  show ?case
    unfolding op advances.simps
    using IH advance_keeps [of s _ _ r t] advance_dom [of s r t] advance_active [of s r t]
    by blast
qed

theorem completed_first_arrival_wins_witness:
  "map_of (completed example_state) It_ok = Some (ascii ''t2'') \<and> ascii ''t2'' \<noteq> []
   \<and> active example_state \<in> dom (map_of (completed example_state))
   \<and> map_of (completed (advances [(It, ascii ''t8''), (Hob, ascii ''t9'')] example_state)) It_ok
       = Some (ascii ''t2'')
   \<and> active (advances [(It, ascii ''t8''), (Hob, ascii ''t9'')] example_state)
       \<in> dom (map_of (completed (advances [(It, ascii ''t8''), (Hob, ascii ''t9'')] example_state)))"
proof -
  have a: "map_of (completed example_state) It_ok = Some (ascii ''t2'')"
    by (simp add: example_state_def)
  have b: "ascii ''t2'' \<noteq> []" by (simp add: ascii_def)
  have c: "active example_state \<in> dom (map_of (completed example_state))"
    by (simp add: example_state_def)
  show ?thesis
    using a b c
      completed_first_arrival_wins [of example_state "[(It, ascii ''t8''), (Hob, ascii ''t9'')]"]
    by blast
qed

text \<open>
  The clock never reads the empty string, so no state of a session holds an empty
  timestamp: \<open>initial\<close> and \<open>reset\<close> record the clock reading, and \<open>advance\<close> keeps
  what is there or records the clock reading.
\<close>

lemma initial_timestamps:
  "now \<noteq> [] \<Longrightarrow> initial seed now = Inr st \<Longrightarrow> \<forall>(k, v) \<in> set (completed st). v \<noteq> []"
  by (auto simp: initial_def split: if_splits)

lemma update_timestamps:
  "\<forall>(k, v) \<in> set kvs. v \<noteq> [] \<Longrightarrow> t \<noteq> [] \<Longrightarrow>
     \<forall>(k, v) \<in> set (AList.update n (opt_or (map_of kvs n) t) kvs). v \<noteq> []"
  by (induction kvs) (auto simp: str_or_def)

lemma advance_timestamps:
  assumes "\<forall>(k, v) \<in> set (completed s). v \<noteq> []" and "t \<noteq> []"
  shows "\<forall>(k, v) \<in> set (completed (after s (fst (advance r t s)))). v \<noteq> []"
proof -
  from advance_cases [of s r t] show ?thesis
  proof
    assume "after s (fst (advance r t s)) = s"
    with assms show ?thesis by simp
  next
    assume "\<exists>n e. after s (fst (advance r t s)) =
         s\<lparr>active := n,
           completed := AList.update n (opt_or (map_of (completed s) n) t) (completed s),
           log := log s @ [e]\<rparr>"
    then obtain n e where "after s (fst (advance r t s)) =
         s\<lparr>active := n,
           completed := AList.update n (opt_or (map_of (completed s) n) t) (completed s),
           log := log s @ [e]\<rparr>" by blast
    with update_timestamps [OF assms, of n] show ?thesis by simp
  qed
qed

section \<open>Finalising the seed\<close>

lemma initial_progress:
  "seed \<noteq> JNull \<Longrightarrow>
     \<exists>st. initial seed now = Inr st \<and> active st = Started \<and> completed st = [(Started, now)]
       \<and> log st = [\<lparr> ts = now, who = Operator, what = ascii ''Tracker created'' \<rparr>]"
  by (simp add: initial_def DEFAULT_STEP_def)

lemma snapshot_seed_fields:
  "snapshot_seed \<noteq> JNull"
  "get_field snapshot_seed (ascii ''active'') = Some (JStr (ascii ''it_ok''))"
  "get_field snapshot_seed (ascii ''completed'') =
     Some (JObj [(ascii ''started'', JStr (ascii ''t0'')), (ascii ''validated'', JStr (ascii ''t1'')),
                 (ascii ''it_ok'', JStr (ascii ''t2''))])"
  "get_field snapshot_seed (ascii ''log'') =
     Some (JArr [JObj [(ascii ''ts'', JStr (ascii ''t0'')), (ascii ''who'', JStr (ascii ''operator'')),
                       (ascii ''what'', JStr (ascii ''Tracker created''))]])"
  by (simp_all add: snapshot_seed_def js_of_state_def js_of_entry_def example_state_def ascii_def)

lemma snapshot_seed_initial:
  "initial snapshot_seed now =
     Inr \<lparr> incidentId = JStr (ascii ''INC1''), machineId = JStr (ascii ''PC7''),
           machineName = JStr (ascii ''lab''), upn = JStr [], bu = JStr [],
           active = Started, completed = [(Started, now)],
           log = [\<lparr> ts = now, who = Operator, what = ascii ''Tracker created'' \<rparr>],
           readonly = True \<rparr>"
  by (simp add: initial_def DEFAULT_STEP_def snapshot_seed_def js_of_state_def
      example_state_def ascii_def)

text \<open>
  \<open>initial\<close> keeps every truthy value of a context field, of whatever type, and
  \<open>readonly\<close> is true for every truthy value; the empty string and zero are falsy.
\<close>

lemma initial_untyped_seed:
  "initial (JObj [(ascii ''incidentId'', JNum (ascii ''5'')), (ascii ''machineId'', JNum (ascii ''0.0'')),
                  (ascii ''upn'', JArr []), (ascii ''readonly'', JNum (ascii ''1''))]) now =
     Inr \<lparr> incidentId = JNum (ascii ''5''), machineId = JStr [], machineName = JStr [],
           upn = JArr [], bu = JStr [], active = Started, completed = [(Started, now)],
           log = [\<lparr> ts = now, who = Operator, what = ascii ''Tracker created'' \<rparr>],
           readonly = True \<rparr>"
  by (simp add: initial_def DEFAULT_STEP_def ascii_def literal_is_zero_def digits_val_def
      is_digit_def in_range_def)

text \<open>
  Claim C1. The claim is that \<open>initial\<close> keeps the \<open>active\<close>, \<open>completed\<close> and \<open>log\<close>
  of a seed that has them. On the seed decoded from a snapshot at step \<open>it_ok\<close>, which
  has all three, \<open>initial\<close> returns a state at \<open>started\<close>, with a \<open>completed\<close>
  object and a log made from the clock reading alone.
\<close>

theorem initial_discards_progress:
  "get_field snapshot_seed (ascii ''active'') = Some (JStr (ascii ''it_ok''))
   \<and> get_field snapshot_seed (ascii ''completed'') =
       Some (JObj [(ascii ''started'', JStr (ascii ''t0'')), (ascii ''validated'', JStr (ascii ''t1'')),
                   (ascii ''it_ok'', JStr (ascii ''t2''))])
   \<and> initial snapshot_seed (ascii ''t9'') =
       Inr \<lparr> incidentId = JStr (ascii ''INC1''), machineId = JStr (ascii ''PC7''),
             machineName = JStr (ascii ''lab''), upn = JStr [], bu = JStr [],
             active = Started, completed = [(Started, ascii ''t9'')],
             log = [\<lparr> ts = ascii ''t9'', who = Operator, what = ascii ''Tracker created'' \<rparr>],
             readonly = True \<rparr>"
  using snapshot_seed_fields(2,3) snapshot_seed_initial [of "ascii ''t9''"] by simp

section \<open>Read-only states and reset\<close>

text \<open>
  Claim C2, as stated, fails: a confirmed \<open>reset\<close> on a read-only state replaces the
  state (and clears \<open>readonly\<close>).
\<close>

theorem readonly_reset_counterexample:
  "readonly (example_state\<lparr>readonly := True\<rparr>)
   \<and> after (example_state\<lparr>readonly := True\<rparr>)
        (reset True (ascii ''t9'') (example_state\<lparr>readonly := True\<rparr>))
      \<noteq> example_state\<lparr>readonly := True\<rparr>"
  by (simp add: example_state_def reset_def after_def)

text \<open>The context inputs are not guarded by \<open>readonly\<close> either.\<close>

lemma readonly_setField_changes:
  "after (example_state\<lparr>readonly := True\<rparr>)
        (setField Upn (ascii ''x'') (example_state\<lparr>readonly := True\<rparr>))
      \<noteq> example_state\<lparr>readonly := True\<rparr>"
  by (simp add: example_state_def after_def ascii_def)

text \<open>
  Claim C2, amended. On a read-only state \<open>advance\<close> is a no-op for every role: no
  update is made, the state and the local store stay as they are. A declined \<open>reset\<close>
  is a no-op as well. A confirmed \<open>reset\<close> is not guarded: it re-initialises the
  state (\<open>active\<close> is \<open>started\<close>, \<open>completed\<close> holds the clock reading for
  \<open>started\<close> alone, the log is the single entry of the operator saying
  \<open>Tracker reset\<close>, the five context fields are kept) and sets \<open>readonly\<close> to false.
\<close>

theorem readonly_advance_noop:
  assumes "readonly s"
  shows "fst (advance r t s) = None
       \<and> after s (handle (Advance r t) s) = s
       \<and> step (Advance r t) (s, ls) = (s, ls)
       \<and> after s (handle (Reset False now) s) = s
       \<and> step (Reset False now) (s, ls) = (s, ls)
       \<and> \<not> readonly (after s (handle (Reset True now) s))
       \<and> after s (handle (Reset True now) s) =
           \<lparr> incidentId = incidentId s, machineId = machineId s, machineName = machineName s,
             upn = upn s, bu = bu s, active = Started, completed = [(Started, now)],
             log = [\<lparr> ts = now, who = Operator, what = ascii ''Tracker reset'' \<rparr>],
             readonly = False \<rparr>"
  using assms
  by (cases "nextFor r s")
     (simp_all add: advance_def setActive_def after_def step_def reset_def DEFAULT_STEP_def)

theorem readonly_advance_noop_witness:
  "readonly (example_state\<lparr>readonly := True\<rparr>)
   \<and> step (Advance It (ascii ''t9'')) (example_state\<lparr>readonly := True\<rparr>, Map.empty)
       = (example_state\<lparr>readonly := True\<rparr>, Map.empty)
   \<and> after (example_state\<lparr>readonly := True\<rparr>)
         (handle (Reset True (ascii ''t9'')) (example_state\<lparr>readonly := True\<rparr>)) =
       \<lparr> incidentId = ascii ''INC1'', machineId = ascii ''PC7'', machineName = ascii ''lab'',
         upn = [], bu = [], active = Started, completed = [(Started, ascii ''t9'')],
         log = [\<lparr> ts = ascii ''t9'', who = Operator, what = ascii ''Tracker reset'' \<rparr>],
         readonly = False \<rparr>"
proof -
  have h: "readonly (example_state\<lparr>readonly := True\<rparr>)" by simp
  have f: "incidentId example_state = ascii ''INC1''" "machineId example_state = ascii ''PC7''"
    "machineName example_state = ascii ''lab''" "upn example_state = []" "bu example_state = []"
    by (simp_all add: example_state_def)
  show ?thesis
    using h readonly_advance_noop [OF h, of It "ascii ''t9''" Map.empty "ascii ''t9''"] f
    by simp
qed

text \<open>
  Claim C8, as stated, fails on the log: after a confirmed \<open>reset\<close> the log is not the
  log of a fresh creation at the same clock reading, the entry says \<open>Tracker reset\<close>.
\<close>

theorem reset_log_counterexample:
  "log (after example_state (reset True (ascii ''t9'') example_state))
     \<noteq> log (projr (initial snapshot_seed (ascii ''t9'')))"
  by (simp add: snapshot_seed_initial) (simp add: reset_def after_def ascii_def)

text \<open>
  Claim C8, amended. A declined \<open>reset\<close> leaves the state as it is. A confirmed one sets
  \<open>active\<close> and \<open>completed\<close> to the values of a fresh creation at the same clock
  reading, sets the log to the single entry of the operator saying \<open>Tracker reset\<close>,
  keeps \<open>incidentId\<close>, \<open>machineId\<close>, \<open>machineName\<close>, \<open>upn\<close> and \<open>bu\<close>, and
  sets \<open>readonly\<close> to false.
\<close>

theorem reset_reinitialises:
  assumes "initial seed now = Inr fresh"
  shows "after s (reset False now s) = s
   \<and> active (after s (reset True now s)) = active fresh
   \<and> completed (after s (reset True now s)) = completed fresh
   \<and> log (after s (reset True now s)) = [\<lparr> ts = now, who = Operator, what = ascii ''Tracker reset'' \<rparr>]
   \<and> incidentId (after s (reset True now s)) = incidentId s
   \<and> machineId (after s (reset True now s)) = machineId s
   \<and> machineName (after s (reset True now s)) = machineName s
   \<and> upn (after s (reset True now s)) = upn s
   \<and> bu (after s (reset True now s)) = bu s
   \<and> readonly (after s (reset True now s)) = False"
  using assms by (auto simp: reset_def after_def initial_def split: if_splits)

theorem reset_reinitialises_witness:
  "active (after unicode_state (reset True (ascii ''t9'') unicode_state)) = Started
   \<and> completed (after unicode_state (reset True (ascii ''t9'') unicode_state)) = [(Started, ascii ''t9'')]
   \<and> incidentId (after unicode_state (reset True (ascii ''t9'') unicode_state)) = ascii ''INC1''
   \<and> bu (after unicode_state (reset True (ascii ''t9'') unicode_state)) = [0xD83D, 0xDE00, 0xE9]
   \<and> readonly (after unicode_state (reset True (ascii ''t9'') unicode_state)) = False"
  using reset_reinitialises [OF snapshot_seed_initial [of "ascii ''t9''"], of unicode_state]
  by (simp add: unicode_state_def example_state_def)

section \<open>Writes to the local store\<close>

text \<open>
  Claim C9. After every change of the state, the new state is serialised and stored under
  the key made from its \<open>incidentId\<close> and \<open>machineId\<close> if and only if it is not
  read-only and both are non-empty; otherwise the local store is left as it is.
\<close>

theorem persist_on_change:
  assumes "handle e s = Some s'"
  shows "step e (s, ls) =
          (s', if \<not> readonly s' \<and> incidentId s' \<noteq> [] \<and> machineId s' \<noteq> []
               then ls(toKey (incidentId s') (machineId s') \<mapsto> JSON_stringify (js_of_state s'))
               else ls)"
  using assms by (simp add: step_def persist_def)

theorem persist_on_change_witness:
  "handle (Edit Upn (ascii ''u'')) example_state = Some (example_state\<lparr>upn := ascii ''u''\<rparr>)
   \<and> step (Edit Upn (ascii ''u'')) (example_state, Map.empty) =
       (example_state\<lparr>upn := ascii ''u''\<rparr>,
        [toKey (ascii ''INC1'') (ascii ''PC7'') \<mapsto>
           JSON_stringify (js_of_state (example_state\<lparr>upn := ascii ''u''\<rparr>))])"
proof -
  have h: "handle (Edit Upn (ascii ''u'')) example_state = Some (example_state\<lparr>upn := ascii ''u''\<rparr>)"
    by simp
  have ids: "incidentId example_state = ascii ''INC1''" "machineId example_state = ascii ''PC7''"
     "\<not> readonly example_state"
    by (simp_all add: example_state_def)
  have ne: "ascii ''INC1'' \<noteq> []" "ascii ''PC7'' \<noteq> []" by (simp_all add: ascii_def)
  show ?thesis using h persist_on_change [OF h, of Map.empty] ids ne by simp
qed

lemma toKey_inj1: "toKey i m = toKey i' m \<longleftrightarrow> i = i'"
  by (simp add: toKey_def)

lemma toKey_inj2: "toKey i m = toKey i m' \<longleftrightarrow> m = m'"
  by (simp add: toKey_def)

lemma step_fst: "fst (step e c) = after (fst c) (handle e (fst c))"
  by (cases "handle e (fst c)") (simp_all add: step_def after_def)

lemma run_fst: "fst (run es c) = handled es (fst c)"
  by (induction es arbitrary: c) (simp_all add: step_fst)

lemma step_store: "k \<noteq> key_of (fst (step e c)) \<Longrightarrow> snd (step e c) k = snd c k"
  by (cases "handle e (fst c)") (simp_all add: step_def persist_def key_of_def)

lemma step_dom: "dom (snd c) \<subseteq> dom (snd (step e c))"
  by (cases "handle e (fst c)") (auto simp: step_def persist_def)

lemma run_dom: "dom (snd c) \<subseteq> dom (snd (run es c))"
proof (induction es arbitrary: c)
  case Nil
  show ?case by simp
next
  case (Cons e es)
  show ?case using Cons.IH [of "step e c"] step_dom [of c e] by auto
qed

lemma run_avoided: "k \<notin> set (keys_after es c) \<Longrightarrow> snd (run es c) k = snd c k"
proof (induction es arbitrary: c)
  case Nil
  show ?case by simp
next
  case (Cons e es)
  from Cons.prems have k: "k \<noteq> key_of (fst (step e c))" and ks: "k \<notin> set (keys_after es (step e c))"
    by simp_all
  from Cons.IH [OF ks] step_store [OF k] show ?case by simp
qed

lemma advance_ids:
  "fst (advance r t s) = Some s' \<Longrightarrow> incidentId s' = incidentId s \<and> machineId s' = machineId s"
  by (cases "nextFor r s") (auto simp: advance_def setActive_def split: if_splits)

lemma advance_readonly: "fst (advance r t s) = Some s' \<Longrightarrow> readonly s' = readonly s"
  by (cases "nextFor r s") (auto simp: advance_def setActive_def split: if_splits)

lemma handle_readonly: "\<not> readonly s \<Longrightarrow> handle e s = Some s' \<Longrightarrow> \<not> readonly s'"
proof (cases e)
  case (Advance r t)
  assume "\<not> readonly s" "handle e s = Some s'"
  with Advance show ?thesis using advance_readonly [of r t s s'] by simp
next
  case (Edit f v)
  assume "\<not> readonly s" "handle e s = Some s'"
  with Edit show ?thesis by (cases f) auto
next
  case (Reset c now)
  assume "handle e s = Some s'"
  with Reset show ?thesis by (auto simp: reset_def split: if_splits)
qed

lemma handle_key: "\<not> rekeys e \<Longrightarrow> handle e s = Some s' \<Longrightarrow> key_of s' = key_of s"
proof (cases e)
  case (Advance r t)
  assume "handle e s = Some s'"
  with Advance show ?thesis using advance_ids [of r t s s'] by (simp add: key_of_def)
next
  case (Edit f v)
  assume "\<not> rekeys e" "handle e s = Some s'"
  with Edit show ?thesis by (cases f) (auto simp: key_of_def)
next
  case (Reset c now)
  assume "handle e s = Some s'"
  with Reset show ?thesis by (auto simp: key_of_def reset_def split: if_splits)
qed

lemma step_key: "\<not> rekeys e \<Longrightarrow> key_of (fst (step e c)) = key_of (fst c)"
  by (cases "handle e (fst c)") (simp_all add: step_def handle_key)

lemma run_same_key:
  "\<forall>e \<in> set es. \<not> rekeys e \<Longrightarrow>
     key_of (fst (run es c)) = key_of (fst c) \<and> set (keys_after es c) \<subseteq> {key_of (fst c)}"
proof (induction es arbitrary: c)
  case Nil
  show ?case by simp
next
  case (Cons e es)
  from Cons.prems have e: "\<not> rekeys e" and es: "\<forall>e \<in> set es. \<not> rekeys e" by simp_all
  have k1: "key_of (fst (step e c)) = key_of (fst c)" using e by (rule step_key)
  from Cons.IH [OF es, of "step e c"] k1 show ?case by simp
qed

text \<open>
  The effect keeps the local store up to date: once the store holds the state of a
  session that is not read-only, it holds the current state after every event.
\<close>

lemma step_up_to_date:
  assumes "up_to_date c"
  shows "up_to_date (step e c)"
proof (cases "handle e (fst c)")
  case None
  then have "step e c = c" by (simp add: step_def)
  with assms show ?thesis by simp
next
  case (Some s')
  from assms have "\<not> readonly (fst c)" by (simp add: up_to_date_def)
  then have "\<not> readonly s'" using Some by (rule handle_readonly)
  then show ?thesis using Some by (simp add: up_to_date_def step_def persist_def key_of_def)
qed

lemma run_up_to_date: "up_to_date c \<Longrightarrow> up_to_date (run es c)"
  by (induction es arbitrary: c) (simp_all add: step_up_to_date)

lemma edit_up_to_date: "\<not> readonly s \<Longrightarrow> up_to_date (step (Edit f v) (s, ls))"
  by (cases f) (simp_all add: up_to_date_def step_def persist_def key_of_def)

lemma edit_rekey:
  assumes "f = IncidentId \<or> f = MachineId"
    and "v \<noteq> (if f = IncidentId then incidentId s else machineId s)"
  shows "key_of (fst (step (Edit f v) (s, ls))) \<noteq> key_of s"
  using assms by (auto simp: step_def key_of_def toKey_inj1 toKey_inj2)

lemma stringify_state_head: "JSON_stringify (js_of_state s) \<noteq> ascii ''old''"
  unfolding js_of_state_def JSON_stringify.simps by (simp add: ascii_def)

text \<open>
  Claim C10, as stated, fails: the record under the old key does not stay as it is once
  the identifiers are edited back to the old pair. With \<open>machineId\<close> edited from
  \<open>PC7\<close> to \<open>PC8\<close> and then back to \<open>PC7\<close>, the record that was stored under the key
  of \<open>PC7\<close> is overwritten with the current state.
\<close>

theorem rekey_back_counterexample:
  "\<not> readonly example_state
   \<and> ascii ''PC8'' \<noteq> machineId example_state
   \<and> [key_of example_state \<mapsto> ascii ''old''] (key_of example_state) = Some (ascii ''old'')
   \<and> snd (run [Edit MachineId (ascii ''PC7'')]
            (step (Edit MachineId (ascii ''PC8''))
               (example_state, [key_of example_state \<mapsto> ascii ''old''])))
        (key_of example_state) = Some (JSON_stringify (js_of_state example_state))
   \<and> JSON_stringify (js_of_state example_state) \<noteq> ascii ''old''"
proof -
  have a: "\<not> readonly example_state" "ascii ''PC8'' \<noteq> machineId example_state"
    by (simp_all add: example_state_def ascii_def)
  have i: "incidentId example_state \<noteq> []" "ascii ''PC8'' \<noteq> []" "ascii ''PC7'' \<noteq> []"
    by (simp_all add: example_state_def ascii_def)
  have m: "machineId example_state = ascii ''PC7''" by (simp add: example_state_def)
  have b: "example_state\<lparr>machineId := ascii ''PC7''\<rparr> = example_state"
    by (simp add: example_state_def)
  have s1: "step (Edit MachineId (ascii ''PC8'')) (example_state, [key_of example_state \<mapsto> ascii ''old''])
      = (example_state\<lparr>machineId := ascii ''PC8''\<rparr>,
         [key_of example_state \<mapsto> ascii ''old'',
          toKey (incidentId example_state) (ascii ''PC8'') \<mapsto>
            JSON_stringify (js_of_state (example_state\<lparr>machineId := ascii ''PC8''\<rparr>))])"
    using a(1) i by (simp add: step_def persist_def)
  have s2: "step (Edit MachineId (ascii ''PC7''))
       (example_state\<lparr>machineId := ascii ''PC8''\<rparr>, ls)
      = (example_state, ls(key_of example_state \<mapsto> JSON_stringify (js_of_state example_state)))"
    for ls
    using a(1) i by (simp add: step_def persist_def b key_of_def m)
  have "snd (run [Edit MachineId (ascii ''PC7'')]
            (step (Edit MachineId (ascii ''PC8''))
               (example_state, [key_of example_state \<mapsto> ascii ''old''])))
        (key_of example_state) = Some (JSON_stringify (js_of_state example_state))"
    unfolding s1 run.simps s2 by simp
  with a stringify_state_head [of example_state] show ?thesis by simp
qed

text \<open>
  Claim C10, amended. In a session that is not read-only, an edit that changes
  \<open>incidentId\<close> or \<open>machineId\<close> changes the persistence key. After that edit and after
  every run of events that follows it, the state is the one that the handlers produced,
  the session is still not read-only, and whenever both identifiers are non-empty the
  local store holds the serialised current state under the key of the current pair: the
  writes go to that key, which is the new key for as long as no identifier is edited
  again. The record under the old key stays as it is for as long as no state of the run
  has the old key again, so whenever no identifier is edited again; and so does the
  record of every key that is neither the new key nor the key of a state of the run. No
  run of events, \<open>reset\<close> included, removes a key from the local store.
\<close>

theorem rekey_keeps_old_record:
  assumes "\<not> readonly s"
    and "f = IncidentId \<or> f = MachineId"
    and "v \<noteq> (if f = IncidentId then incidentId s else machineId s)"
  shows "key_of (fst (step (Edit f v) (s, ls))) \<noteq> key_of s
       \<and> fst (run es (step (Edit f v) (s, ls))) = handled es (fst (step (Edit f v) (s, ls)))
       \<and> \<not> readonly (fst (run es (step (Edit f v) (s, ls))))
       \<and> (incidentId (fst (run es (step (Edit f v) (s, ls)))) \<noteq> [] \<and>
          machineId (fst (run es (step (Edit f v) (s, ls)))) \<noteq> [] \<longrightarrow>
            snd (run es (step (Edit f v) (s, ls))) (key_of (fst (run es (step (Edit f v) (s, ls))))) =
              Some (JSON_stringify (js_of_state (fst (run es (step (Edit f v) (s, ls)))))))
       \<and> ((\<forall>e \<in> set es. \<not> rekeys e) \<longrightarrow>
            key_of (fst (run es (step (Edit f v) (s, ls)))) = key_of (fst (step (Edit f v) (s, ls)))
            \<and> snd (run es (step (Edit f v) (s, ls))) (key_of s) = ls (key_of s))
       \<and> (key_of s \<notin> set (keys_after es (step (Edit f v) (s, ls))) \<longrightarrow>
            snd (run es (step (Edit f v) (s, ls))) (key_of s) = ls (key_of s))
       \<and> (\<forall>k. k \<noteq> key_of (fst (step (Edit f v) (s, ls)))
              \<and> k \<notin> set (keys_after es (step (Edit f v) (s, ls))) \<longrightarrow>
              snd (run es (step (Edit f v) (s, ls))) k = ls k)
       \<and> (\<forall>es'. dom ls \<subseteq> dom (snd (run es' (s, ls))))"
proof -
  let ?c1 = "step (Edit f v) (s, ls)"
  have a: "key_of (fst ?c1) \<noteq> key_of s" using assms(2,3) by (rule edit_rekey)
  have b: "fst (run es ?c1) = handled es (fst ?c1)" by (rule run_fst)
  have u: "up_to_date (run es ?c1)"
    using edit_up_to_date [OF assms(1)] by (rule run_up_to_date)
  have c: "\<not> readonly (fst (run es ?c1))" using u by (simp add: up_to_date_def)
  have d: "incidentId (fst (run es ?c1)) \<noteq> [] \<and> machineId (fst (run es ?c1)) \<noteq> [] \<longrightarrow>
            snd (run es ?c1) (key_of (fst (run es ?c1))) =
              Some (JSON_stringify (js_of_state (fst (run es ?c1))))"
    using u by (simp add: up_to_date_def)
  have g: "\<And>k. k \<noteq> key_of (fst ?c1) \<Longrightarrow> k \<notin> set (keys_after es ?c1) \<Longrightarrow>
              snd (run es ?c1) k = ls k"
  proof -
    fix k assume k: "k \<noteq> key_of (fst ?c1)" and ks: "k \<notin> set (keys_after es ?c1)"
    from run_avoided [OF ks] step_store [OF k] show "snd (run es ?c1) k = ls k" by simp
  qed
  have e: "(\<forall>e \<in> set es. \<not> rekeys e) \<longrightarrow>
            key_of (fst (run es ?c1)) = key_of (fst ?c1) \<and> snd (run es ?c1) (key_of s) = ls (key_of s)"
  proof
    assume n: "\<forall>e \<in> set es. \<not> rekeys e"
    from run_same_key [OF n, of ?c1] have
      k1: "key_of (fst (run es ?c1)) = key_of (fst ?c1)"
      and k2: "set (keys_after es ?c1) \<subseteq> {key_of (fst ?c1)}" by simp_all
    from k2 a have "key_of s \<notin> set (keys_after es ?c1)" by auto
    with g [of "key_of s"] a have "snd (run es ?c1) (key_of s) = ls (key_of s)" by simp
    with k1 show "key_of (fst (run es ?c1)) = key_of (fst ?c1)
        \<and> snd (run es ?c1) (key_of s) = ls (key_of s)" by simp
  qed
  have h: "\<forall>es'. dom ls \<subseteq> dom (snd (run es' (s, ls)))" using run_dom [of "(s, ls)"] by simp
  from g have g': "\<forall>k. k \<noteq> key_of (fst ?c1) \<and> k \<notin> set (keys_after es ?c1) \<longrightarrow>
              snd (run es ?c1) k = ls k" by blast
  have o: "key_of s \<notin> set (keys_after es ?c1) \<longrightarrow> snd (run es ?c1) (key_of s) = ls (key_of s)"
    using g [of "key_of s"] a by simp
  show ?thesis
    apply (intro conjI)
           apply (rule a)
          apply (rule b)
         apply (rule c)
        apply (rule d)
       apply (rule e)
      apply (rule o)
     apply (rule g')
    apply (rule h)
    done
qed

theorem rekey_keeps_old_record_witness:
  "\<not> readonly example_state
   \<and> ascii ''PC8'' \<noteq> machineId example_state
   \<and> \<not> rekeys (Advance Hob (ascii ''t9'')) \<and> \<not> rekeys (Reset True (ascii ''t10''))
   \<and> snd (run [Advance Hob (ascii ''t9''), Reset True (ascii ''t10'')]
            (step (Edit MachineId (ascii ''PC8''))
               (example_state, [key_of example_state \<mapsto> ascii ''old''])))
        (key_of example_state) = Some (ascii ''old'')
   \<and> snd (run [Advance Hob (ascii ''t9''), Reset True (ascii ''t10'')]
            (step (Edit MachineId (ascii ''PC8''))
               (example_state, [key_of example_state \<mapsto> ascii ''old''])))
        (toKey (ascii ''INC1'') (ascii ''PC8'')) =
       Some (JSON_stringify (js_of_state
         \<lparr> incidentId = ascii ''INC1'', machineId = ascii ''PC8'', machineName = ascii ''lab'',
           upn = [], bu = [], active = Started, completed = [(Started, ascii ''t10'')],
           log = [\<lparr> ts = ascii ''t10'', who = Operator, what = ascii ''Tracker reset'' \<rparr>],
           readonly = False \<rparr>))"
proof -
  let ?es = "[Advance Hob (ascii ''t9''), Reset True (ascii ''t10'')]"
  let ?ls = "[key_of example_state \<mapsto> ascii ''old'']"
  let ?c1 = "step (Edit MachineId (ascii ''PC8'')) (example_state, ?ls)"
  have h1: "\<not> readonly example_state" by (simp add: example_state_def)
  have h2: "MachineId = IncidentId \<or> MachineId = MachineId" by simp
  have h3': "ascii ''PC8'' \<noteq> machineId example_state" by (simp add: example_state_def ascii_def)
  then have h3: "ascii ''PC8'' \<noteq>
      (if MachineId = IncidentId then incidentId example_state else machineId example_state)"
    by simp
  have h4: "\<forall>e \<in> set ?es. \<not> rekeys e" by simp
  have c1: "fst ?c1 = example_state\<lparr>machineId := ascii ''PC8''\<rparr>" by (simp add: step_def)
  have n: "nextFor Hob (example_state\<lparr>machineId := ascii ''PC8''\<rparr>) = Some Hob_ok"
    by (simp add: nextFor_eq example_state_def)
  have fin: "handled ?es (fst ?c1) =
         \<lparr> incidentId = ascii ''INC1'', machineId = ascii ''PC8'', machineName = ascii ''lab'',
           upn = [], bu = [], active = Started, completed = [(Started, ascii ''t10'')],
           log = [\<lparr> ts = ascii ''t10'', who = Operator, what = ascii ''Tracker reset'' \<rparr>],
           readonly = False \<rparr>"
    unfolding c1
    by (simp add: advance_def n setActive_def after_def reset_def DEFAULT_STEP_def)
       (simp add: example_state_def)
  have ne: "ascii ''INC1'' \<noteq> []" "ascii ''PC8'' \<noteq> []" by (simp_all add: ascii_def)
  note t = rekey_keeps_old_record [OF h1 h2 h3, of ?ls ?es]
  from t have r: "fst (run ?es ?c1) = handled ?es (fst ?c1)" by blast
  from t h4 have old: "snd (run ?es ?c1) (key_of example_state) = ?ls (key_of example_state)"
    by blast
  from t have "incidentId (fst (run ?es ?c1)) \<noteq> [] \<and> machineId (fst (run ?es ?c1)) \<noteq> [] \<longrightarrow>
            snd (run ?es ?c1) (key_of (fst (run ?es ?c1))) =
              Some (JSON_stringify (js_of_state (fst (run ?es ?c1))))" by blast
  then have new: "snd (run ?es ?c1) (toKey (ascii ''INC1'') (ascii ''PC8'')) =
       Some (JSON_stringify (js_of_state (handled ?es (fst ?c1))))"
    unfolding r fin using ne by (simp add: key_of_def)
  show ?thesis using h1 h3' old new unfolding fin by simp
qed

section \<open>The octets that are encoded\<close>

text \<open>\<open>unescape (encodeURIComponent t)\<close> is the UTF-8 form of a well-formed \<open>t\<close>, one code unit per octet.\<close>

lemma unat_of_nat16: "n < 65536 \<Longrightarrow> unat (of_nat n :: 16 word) = n"
  by (simp add: unat_of_nat take_bit_nat_eq_self)

lemma unat_lt16: "unat (c :: 16 word) < 65536"
  using unsigned_less [of c, where 'a = nat] by simp

lemma unat_hex_upper: "n < 16 \<Longrightarrow> unat (hex_upper n) = (if n < 10 then 48 + n else 55 + n)"
  unfolding hex_upper_def by (simp del: of_nat_add add: unat_of_nat16)

lemma unat_hex_lower: "n < 16 \<Longrightarrow> unat (hex_lower n) = (if n < 10 then 48 + n else 87 + n)"
  unfolding hex_lower_def by (simp del: of_nat_add add: unat_of_nat16)

lemma hex_upper_props:
  assumes "n < 16"
  shows "is_hex (hex_upper n)" and "hex_val (hex_upper n) = n" and "hex_upper n \<noteq> 0x75"
    and "unat (hex_upper n) < 128"
  using assms unat_hex_upper [OF assms]
  by (auto simp: is_hex_def is_digit_def in_range_def hex_val_def word_unat_eq_iff)

lemma hex_lower_props:
  assumes "n < 16"
  shows "is_hex (hex_lower n)" and "hex_val (hex_lower n) = n"
    and "unat (hex_lower n) < 128" and "48 \<le> unat (hex_lower n)"
  using assms unat_hex_lower [OF assms]
  by (auto simp: is_hex_def is_digit_def in_range_def hex_val_def)

lemma unescape_pct:
  assumes "b < 256"
  shows "unescape (pct b @ e) = of_nat b # unescape e"
proof -
  have d: "b div 16 < 16" "b mod 16 < 16" using assms by simp_all
  have v: "hex_val (hex_upper (b div 16)) * 16 + hex_val (hex_upper (b mod 16)) = b"
    using d by (simp add: hex_upper_props)
  show ?thesis
    using hex_upper_props [OF d(1)] hex_upper_props [OF d(2)] v
    by (simp add: pct_def hex_num_def)
qed

lemma lead_not_trail: "is_lead c \<Longrightarrow> \<not> is_trail c"
  by (simp add: is_lead_def is_trail_def in_range_def)

lemma uri_unescaped_ascii:
  assumes "uri_unescaped c"
  shows "unat c < 128" and "c \<noteq> 0x25" and "\<not> is_lead c" and "\<not> is_trail c"
  using assms
  by (auto simp: uri_unescaped_def is_alnum_def is_digit_def in_range_def is_lead_def is_trail_def
      word_unat_eq_iff)

lemma utf8_octets: "cp < 0x110000 \<Longrightarrow> list_all (\<lambda>b. b < 256) (utf8 cp)"
  unfolding utf8_def by (simp; arith)

lemma pair_cp_range:
  assumes "is_lead c" and "is_trail d"
  shows "0x10000 \<le> pair_cp c d" and "pair_cp c d < 0x110000"
proof -
  have "unat c - 0xD800 \<le> 1023" using assms(1) by (auto simp: is_lead_def in_range_def)
  then have "(unat c - 0xD800) * 0x400 \<le> 1023 * 0x400" by (rule mult_le_mono1)
  moreover have "unat d - 0xDC00 \<le> 1023" using assms(2) by (auto simp: is_trail_def in_range_def)
  ultimately show "pair_cp c d < 0x110000" by (simp add: pair_cp_def)
  show "0x10000 \<le> pair_cp c d" by (simp add: pair_cp_def)
qed

lemma unescape_pcts:
  "list_all (\<lambda>b. b < 256) bs \<Longrightarrow> unescape (concat (map pct bs) @ e) = map of_nat bs @ unescape e"
  by (induction bs) (simp_all add: unescape_pct)

lemma unescape_plain: "c \<noteq> 0x25 \<Longrightarrow> unescape (c # e) = c # unescape e"
  by simp

lemma enc_unescaped:
  "uri_unescaped c \<Longrightarrow> encodeURIComponent (c # cs) = map_option ((#) c) (encodeURIComponent cs)"
  by simp

lemma enc_plain:
  "\<not> uri_unescaped c \<Longrightarrow> \<not> is_lead c \<Longrightarrow> \<not> is_trail c \<Longrightarrow>
     encodeURIComponent (c # cs) =
       map_option ((@) (concat (map pct (utf8 (unat c))))) (encodeURIComponent cs)"
  by simp

lemma enc_pair:
  assumes "is_lead c" and "is_trail d"
  shows "encodeURIComponent (c # d # ds) =
       map_option ((@) (concat (map pct (utf8 (pair_cp c d))))) (encodeURIComponent ds)"
proof -
  have "\<not> uri_unescaped c" using assms(1) uri_unescaped_ascii(3) by blast
  moreover have "\<not> is_trail c" using assms(1) by (rule lead_not_trail)
  ultimately show ?thesis using assms by simp
qed

lemma encode_utf8:
  "well_formed t \<Longrightarrow>
     \<exists>e. encodeURIComponent t = Some e \<and> unescape e = map of_nat (utf8_units t)"
proof (induction t rule: well_formed.induct)
  case 1
  show ?case by simp
next
  case (2 c cs)
  show ?case
  proof (cases "is_lead c")
    case True
    with "2.prems" obtain d ds where cs: "cs = d # ds" and d: "is_trail d" and wf: "well_formed ds"
      by (cases cs) auto
    from "2.IH"(1) [OF True cs] d wf obtain e where
      e: "encodeURIComponent ds = Some e" "unescape e = map of_nat (utf8_units ds)" by auto
    have o: "list_all (\<lambda>b. b < 256) (utf8 (pair_cp c d))"
      by (rule utf8_octets [OF pair_cp_range(2) [OF True d]])
    show ?thesis
      unfolding cs using True e
      by (simp only: enc_pair [OF True d] utf8_units.simps if_True list.case option.map)
         (simp add: unescape_pcts [OF o])
  next
    case False
    with "2.prems" have nt: "\<not> is_trail c" and wf: "well_formed cs" by auto
    from "2.IH"(2) [OF False] wf obtain e where
      e: "encodeURIComponent cs = Some e" "unescape e = map of_nat (utf8_units cs)" by auto
    show ?thesis
    proof (cases "uri_unescaped c")
      case True
      have u: "utf8 (unat c) = [unat c]" using uri_unescaped_ascii(1) [OF True] by (simp add: utf8_def)
      show ?thesis
        using True False e u uri_unescaped_ascii(2) [OF True]
        by simp
    next
      case un: False
      have "unat c < 0x110000" using unat_lt16 [of c] by simp
      then have o: "list_all (\<lambda>b. b < 256) (utf8 (unat c))" by (rule utf8_octets)
      show ?thesis
        using False e
        by (simp only: enc_plain [OF un False nt] utf8_units.simps if_False option.map)
           (simp add: unescape_pcts [OF o])
    qed
  qed
qed

section \<open>Decoding the octets\<close>

text \<open>\<open>decodeURIComponent (escape b)\<close> reads UTF-8 octets back into the string.\<close>

lemma escape_append: "escape (a @ b) = escape a @ escape b"
  by (simp add: escape_def)

lemma escape_Cons: "escape (c # cs) = escape_unit c @ escape cs"
  by (simp add: escape_def)

lemma escape_unescaped_ascii:
  assumes "escape_unescaped c"
  shows "unat c < 128" and "c \<noteq> 0x25"
  using assms
  by (auto simp: escape_unescaped_def is_alnum_def is_digit_def in_range_def word_unat_eq_iff)

lemma pct_octet_pct:
  assumes "b < 256"
  shows "pct_octet (pct b @ r) = Some b"
proof -
  have d: "b div 16 < 16" "b mod 16 < 16" using assms by simp_all
  have v: "hex_val (hex_upper (b div 16)) * 16 + hex_val (hex_upper (b mod 16)) = b"
    using d by (simp add: hex_upper_props)
  show ?thesis
    using hex_upper_props(1) [OF d(1)] hex_upper_props(1) [OF d(2)] v
    by (simp add: pct_def pct_octet_def hex_num_def)
qed

lemma pct_octets_pcts:
  "list_all (\<lambda>b. b < 256) bs \<Longrightarrow> pct_octets (length bs) (concat (map pct bs) @ r) = Some bs"
proof (induction bs)
  case Nil
  show ?case by simp
next
  case (Cons b bs)
  then have b: "b < 256" and bs: "list_all (\<lambda>b. b < 256) bs" by simp_all
  have l: "drop 3 (pct b @ concat (map pct bs) @ r) = concat (map pct bs) @ r"
    by (simp add: pct_def)
  show ?case
    using Cons.IH [OF bs] pct_octet_pct [OF b, of "concat (map pct bs) @ r"] l by simp
qed

lemma length_pcts: "length (concat (map pct bs)) = 3 * length bs"
  by (induction bs) (simp_all add: pct_def)

lemma decode_sequence:
  assumes "b0 < 256" and "list_all (\<lambda>b. b < 256) bs"
    and "utf8_length b0 = Suc (length bs)" and "1 \<le> length bs" and "length bs \<le> 3"
    and "utf8_decode (b0 # bs) = Some cp"
  shows "decodeURIComponent (concat (map pct (b0 # bs)) @ rest) =
           map_option ((@) (utf16 cp)) (decodeURIComponent rest)"
proof -
  define cs where "cs = [hex_upper (b0 div 16), hex_upper (b0 mod 16)] @ concat (map pct bs) @ rest"
  have e: "concat (map pct (b0 # bs)) @ rest = 0x25 # cs" by (simp add: cs_def pct_def)
  have p: "pct_octet (0x25 # cs) = Some b0"
    using pct_octet_pct [OF assms(1), of "concat (map pct bs) @ rest"] by (simp add: cs_def pct_def)
  have d2: "drop 2 cs = concat (map pct bs) @ rest" by (simp add: cs_def)
  have q: "pct_octets (length bs) (drop 2 cs) = Some bs"
    unfolding d2 using assms(2) by (rule pct_octets_pcts)
  have d3: "drop (3 * Suc (length bs) - 1) cs = rest"
    by (simp add: cs_def length_pcts)
  have ne: "bs \<noteq> []" using assms(4) by auto
  show ?thesis
    unfolding e using p q d3 ne assms(3,4,5,6) by simp
qed

lemma decode_ascii:
  assumes "b < 128"
  shows "decodeURIComponent (escape_unit (of_nat b) @ rest) =
           map_option ((#) (of_nat b)) (decodeURIComponent rest)"
proof (cases "escape_unescaped (of_nat b :: 16 word)")
  case True
  then show ?thesis using escape_unescaped_ascii(2) [OF True] by (simp add: escape_unit_def)
next
  case False
  have u: "unat (of_nat b :: 16 word) = b" using assms by (simp add: unat_of_nat16)
  have b: "b < 256" using assms by simp
  define cs where "cs = [hex_upper (b div 16), hex_upper (b mod 16)] @ rest"
  have e: "pct b @ rest = 0x25 # cs" by (simp add: cs_def pct_def)
  have p: "pct_octet (0x25 # cs) = Some b"
    using pct_octet_pct [OF b, of rest] by (simp add: cs_def pct_def)
  have l: "utf8_length b = 0" using assms by (simp add: utf8_length_def)
  have d2: "drop 2 cs = rest" by (simp add: cs_def)
  show ?thesis
    using False u b by (simp add: escape_unit_def e p l d2)
qed

lemma escape_octets:
  "list_all (\<lambda>b. 128 \<le> b \<and> b < 256) bs \<Longrightarrow> escape (map of_nat bs) = concat (map pct bs)"
proof (induction bs)
  case Nil
  show ?case by (simp add: escape_def)
next
  case (Cons b bs)
  then have b: "128 \<le> b" "b < 256" by simp_all
  have u: "unat (of_nat b :: 16 word) = b" using b by (simp add: unat_of_nat16)
  have "\<not> escape_unescaped (of_nat b :: 16 word)"
    using escape_unescaped_ascii(1) [of "of_nat b"] u b by auto
  then have "escape_unit (of_nat b) = pct b" using u b by (simp add: escape_unit_def)
  with Cons show ?case by (simp add: escape_Cons)
qed

lemma mod64_le: "(x::nat) mod 64 \<le> 63"
  using mod_less_divisor [of 64 x] by linarith

lemma mod64_lt: "(x::nat) mod 64 < 128"
  using mod_less_divisor [of 64 x] by linarith

lemma recompose3: "(cp::nat) div 4096 * 4096 + cp div 64 mod 64 * 64 + cp mod 64 = cp"
proof -
  have x: "cp div 4096 = cp div 64 div 64" using div_mult2_eq [of cp 64 64] by simp
  have e1: "cp div 64 div 64 * 64 + cp div 64 mod 64 = cp div 64" by simp
  have e2: "cp div 64 * 64 + cp mod 64 = cp" by simp
  show ?thesis unfolding x using e1 e2 by linarith
qed

lemma recompose4:
  "(cp::nat) div 262144 * 262144 + cp div 4096 mod 64 * 4096 + cp div 64 mod 64 * 64 + cp mod 64 = cp"
proof -
  have x: "cp div 4096 = cp div 64 div 64" using div_mult2_eq [of cp 64 64] by simp
  have y: "cp div 262144 = cp div 64 div 64 div 64" using div_mult2_eq [of cp 4096 64] x by simp
  have e0: "cp div 64 div 64 div 64 * 64 + cp div 64 div 64 mod 64 = cp div 64 div 64" by simp
  have e1: "cp div 64 div 64 * 64 + cp div 64 mod 64 = cp div 64" by simp
  have e2: "cp div 64 * 64 + cp mod 64 = cp" by simp
  show ?thesis unfolding x y using e0 e1 e2 by linarith
qed

lemma utf8_two:
  assumes "0x80 \<le> cp" and "cp < 0x800"
  shows "utf8 cp = [0xC0 + cp div 64, 0x80 + cp mod 64]"
    and "utf8_length (0xC0 + cp div 64) = 2"
    and "utf8_decode [0xC0 + cp div 64, 0x80 + cp mod 64] = Some cp"
    and "list_all (\<lambda>b. 128 \<le> b \<and> b < 256) [0xC0 + cp div 64, 0x80 + cp mod 64]"
proof -
  show "utf8 cp = [0xC0 + cp div 64, 0x80 + cp mod 64]" using assms by (simp add: utf8_def)
  have d: "cp div 64 < 32" using assms(2) by (simp add: div_less_iff_less_mult)
  have m: "cp mod 64 < 64" by simp
  show "utf8_length (0xC0 + cp div 64) = 2" using d by (simp add: utf8_length_def)
  show "utf8_decode [0xC0 + cp div 64, 0x80 + cp mod 64] = Some cp"
    using assms(1) m by (simp add: is_cont_def Let_def mod64_le)
  show "list_all (\<lambda>b. 128 \<le> b \<and> b < 256) [0xC0 + cp div 64, 0x80 + cp mod 64]"
    using d by (simp add: mod64_lt)
qed

lemma utf8_three:
  assumes "0x800 \<le> cp" and "cp < 0x10000" and "\<not> (0xD800 \<le> cp \<and> cp \<le> 0xDFFF)"
  shows "utf8 cp = [0xE0 + cp div 4096, 0x80 + cp div 64 mod 64, 0x80 + cp mod 64]"
    and "utf8_length (0xE0 + cp div 4096) = 3"
    and "utf8_decode [0xE0 + cp div 4096, 0x80 + cp div 64 mod 64, 0x80 + cp mod 64] = Some cp"
    and "list_all (\<lambda>b. 128 \<le> b \<and> b < 256)
           [0xE0 + cp div 4096, 0x80 + cp div 64 mod 64, 0x80 + cp mod 64]"
proof -
  show "utf8 cp = [0xE0 + cp div 4096, 0x80 + cp div 64 mod 64, 0x80 + cp mod 64]"
    using assms by (simp add: utf8_def)
  have d: "cp div 4096 < 16" using assms(2) by (simp add: div_less_iff_less_mult)
  have m1: "cp div 64 mod 64 < 64" and m2: "cp mod 64 < 64" by simp_all
  have r: "cp div 4096 * 4096 + cp div 64 mod 64 * 64 + cp mod 64 = cp" by (rule recompose3)
  show "utf8_length (0xE0 + cp div 4096) = 3" using d by (simp add: utf8_length_def)
  show "utf8_decode [0xE0 + cp div 4096, 0x80 + cp div 64 mod 64, 0x80 + cp mod 64] = Some cp"
    using assms m1 m2 r by (simp add: is_cont_def Let_def mod64_le)
  show "list_all (\<lambda>b. 128 \<le> b \<and> b < 256)
           [0xE0 + cp div 4096, 0x80 + cp div 64 mod 64, 0x80 + cp mod 64]"
    using d by (simp add: mod64_lt)
qed

lemma utf8_four:
  assumes "0x10000 \<le> cp" and "cp < 0x110000"
  shows "utf8 cp = [0xF0 + cp div 262144, 0x80 + cp div 4096 mod 64, 0x80 + cp div 64 mod 64,
                    0x80 + cp mod 64]"
    and "utf8_length (0xF0 + cp div 262144) = 4"
    and "utf8_decode [0xF0 + cp div 262144, 0x80 + cp div 4096 mod 64, 0x80 + cp div 64 mod 64,
                    0x80 + cp mod 64] = Some cp"
    and "list_all (\<lambda>b. 128 \<le> b \<and> b < 256)
           [0xF0 + cp div 262144, 0x80 + cp div 4096 mod 64, 0x80 + cp div 64 mod 64,
                    0x80 + cp mod 64]"
proof -
  show "utf8 cp = [0xF0 + cp div 262144, 0x80 + cp div 4096 mod 64, 0x80 + cp div 64 mod 64,
                    0x80 + cp mod 64]"
    using assms by (simp add: utf8_def)
  have d: "cp div 262144 < 8" using assms(2) by (simp add: div_less_iff_less_mult)
  have m0: "cp div 4096 mod 64 < 64" and m1: "cp div 64 mod 64 < 64" and m2: "cp mod 64 < 64"
    by simp_all
  have r: "cp div 262144 * 262144 + cp div 4096 mod 64 * 4096 + cp div 64 mod 64 * 64 + cp mod 64 = cp"
    by (rule recompose4)
  show "utf8_length (0xF0 + cp div 262144) = 4" using d by (simp add: utf8_length_def)
  show "utf8_decode [0xF0 + cp div 262144, 0x80 + cp div 4096 mod 64, 0x80 + cp div 64 mod 64,
                    0x80 + cp mod 64] = Some cp"
    using assms m0 m1 m2 r by (simp add: is_cont_def Let_def mod64_le)
  show "list_all (\<lambda>b. 128 \<le> b \<and> b < 256)
           [0xF0 + cp div 262144, 0x80 + cp div 4096 mod 64, 0x80 + cp div 64 mod 64,
                    0x80 + cp mod 64]"
    using d by (simp add: mod64_lt)
qed

lemma decode_code_point:
  assumes "0x80 \<le> cp" and "cp < 0x110000" and "\<not> (0xD800 \<le> cp \<and> cp \<le> 0xDFFF)"
  shows "decodeURIComponent (escape (map of_nat (utf8 cp)) @ rest) =
           map_option ((@) (utf16 cp)) (decodeURIComponent rest)"
proof -
  consider "cp < 0x800" | "0x800 \<le> cp" "cp < 0x10000" | "0x10000 \<le> cp" by linarith
  then show ?thesis
  proof cases
    case 1
    note f = utf8_two [OF assms(1) 1]
    have b0: "0xC0 + cp div 64 < 256" using f(4) by simp
    have bs: "list_all (\<lambda>b. b < 256) [0x80 + cp mod 64]" using f(4) by simp
    show ?thesis
      unfolding f(1) escape_octets [OF f(4)]
      by (rule decode_sequence [OF b0 bs _ _ _ f(3)]) (simp_all add: f(2))
  next
    case 2
    note f = utf8_three [OF 2 assms(3)]
    have b0: "0xE0 + cp div 4096 < 256" using f(4) by simp
    have bs: "list_all (\<lambda>b. b < 256) [0x80 + cp div 64 mod 64, 0x80 + cp mod 64]"
      using f(4) by simp
    show ?thesis
      unfolding f(1) escape_octets [OF f(4)]
      by (rule decode_sequence [OF b0 bs _ _ _ f(3)]) (simp_all add: f(2))
  next
    case 3
    note f = utf8_four [OF 3 assms(2)]
    have b0: "0xF0 + cp div 262144 < 256" using f(4) by simp
    have bs: "list_all (\<lambda>b. b < 256)
        [0x80 + cp div 4096 mod 64, 0x80 + cp div 64 mod 64, 0x80 + cp mod 64]"
      using f(4) by simp
    show ?thesis
      unfolding f(1) escape_octets [OF f(4)]
      by (rule decode_sequence [OF b0 bs _ _ _ f(3)]) (simp_all add: f(2))
  qed
qed

lemma utf16_single: "utf16 (unat (c :: 16 word)) = [c]"
  using unat_lt16 [of c] by (simp add: utf16_def)

lemma utf16_pair:
  assumes "is_lead c" and "is_trail d"
  shows "utf16 (pair_cp c d) = [c, d]"
proof -
  define x where "x = unat c - 0xD800"
  define y where "y = unat d - 0xDC00"
  have c: "unat c = 0xD800 + x" using assms(1) by (auto simp: x_def is_lead_def in_range_def)
  have d: "unat d = 0xDC00 + y" and y: "y < 0x400"
    using assms(2) by (auto simp: y_def is_trail_def in_range_def)
  have p: "pair_cp c d = 0x10000 + (x * 0x400 + y)" by (simp add: pair_cp_def x_def y_def)
  have "(x * 0x400 + y) div 0x400 = x" and "(x * 0x400 + y) mod 0x400 = y" using y by simp_all
  then have "utf16 (pair_cp c d) = [of_nat (unat c), of_nat (unat d)]"
    unfolding p c d by (simp add: utf16_def)
  then show ?thesis by simp
qed

lemma decode_utf8:
  "well_formed t \<Longrightarrow> decodeURIComponent (escape (map of_nat (utf8_units t))) = Some t"
proof (induction t rule: well_formed.induct)
  case 1
  show ?case by (simp add: escape_def)
next
  case (2 c cs)
  show ?case
  proof (cases "is_lead c")
    case True
    with "2.prems" obtain d ds where cs: "cs = d # ds" and d: "is_trail d" and wf: "well_formed ds"
      by (cases cs) auto
    have IH: "decodeURIComponent (escape (map of_nat (utf8_units ds))) = Some ds"
      using "2.IH"(1) [OF True cs] d wf by simp
    note r = pair_cp_range [OF True d]
    have cp: "0x80 \<le> pair_cp c d" "\<not> (0xD800 \<le> pair_cp c d \<and> pair_cp c d \<le> 0xDFFF)"
      using r(1) by simp_all
    have u: "utf8_units (c # cs) = utf8 (pair_cp c d) @ utf8_units ds"
      using True by (simp add: cs)
    show ?thesis
      unfolding u map_append escape_append
      by (simp add: decode_code_point [OF cp(1) r(2) cp(2)] IH utf16_pair [OF True d] cs)
  next
    case False
    with "2.prems" have nt: "\<not> is_trail c" and wf: "well_formed cs" by auto
    have IH: "decodeURIComponent (escape (map of_nat (utf8_units cs))) = Some cs"
      using "2.IH"(2) [OF False] wf by simp
    have u: "utf8_units (c # cs) = utf8 (unat c) @ utf8_units cs" using False by simp
    show ?thesis
    proof (cases "unat c < 0x80")
      case True
      have v: "utf8 (unat c) = [unat c]" using True by (simp add: utf8_def)
      show ?thesis
        unfolding u v using decode_ascii [OF True, of "escape (map of_nat (utf8_units cs))"] IH
        by (simp add: escape_Cons)
    next
      case hi: False
      have cp: "0x80 \<le> unat c" "unat c < 0x110000" "\<not> (0xD800 \<le> unat c \<and> unat c \<le> 0xDFFF)"
        using hi False nt unat_lt16 [of c] by (auto simp: is_lead_def is_trail_def in_range_def)
      show ?thesis
        unfolding u map_append escape_append
        by (simp add: decode_code_point [OF cp] IH utf16_single)
    qed
  qed
qed

section \<open>Base64\<close>

lemma unat_b64_char:
  "n < 64 \<Longrightarrow> unat (b64_char n) =
     (if n < 26 then 65 + n else if n < 52 then 71 + n else if n < 62 then n - 4
      else if n = 62 then 43 else 47)"
  unfolding b64_char_def by (simp del: of_nat_add of_nat_diff add: unat_of_nat16)

lemma b64_char_props:
  assumes "n < 64"
  shows "is_b64 (b64_char n)" and "b64_val (b64_char n) = n"
    and "\<not> is_ascii_ws (b64_char n)" and "b64_char n \<noteq> 0x3D"
  using assms unat_b64_char [OF assms]
  by (auto simp: is_b64_def b64_val_def is_alnum_def is_digit_def in_range_def is_ascii_ws_def
      word_unat_eq_iff split: if_splits)

lemma sextets_lt: "list_all (\<lambda>b. b < 256) bs \<Longrightarrow> list_all (\<lambda>v. v < 64) (sextets bs)"
proof (induction bs rule: sextets.induct)
  case (4 a b c bs)
  then have "a < 256" "b < 256" "c < 256" by simp_all
  then have "a div 4 < 64" "a mod 4 * 16 + b div 16 < 64" "b mod 16 * 4 + c div 64 < 64"
    by (simp_all add: div_less_iff_less_mult; arith)+
  with 4 show ?case by simp
qed (simp_all add: div_less_iff_less_mult; arith)+

lemma decode_sextets: "list_all (\<lambda>b. b < 256) bs \<Longrightarrow> base64_decode (sextets bs) = bs"
proof (induction bs rule: sextets.induct)
  case 1
  show ?case by simp
next
  case (2 a)
  show ?case by simp
next
  case (3 a b)
  then have b: "b < 256" by simp
  have "(a mod 4 * 16 + b div 16) div 16 = a mod 4" using b by (simp add: div_less_iff_less_mult)
  moreover have "(a mod 4 * 16 + b div 16) mod 16 = b div 16"
    using b by (simp add: div_less_iff_less_mult)
  moreover have "(b mod 16 * 4) div 4 = b mod 16" by simp
  ultimately show ?case by simp
next
  case (4 a b c bs)
  then have b: "b < 256" and c: "c < 256" and bs: "list_all (\<lambda>b. b < 256) bs" by simp_all
  have "(a mod 4 * 16 + b div 16) div 16 = a mod 4" using b by (simp add: div_less_iff_less_mult)
  moreover have "(a mod 4 * 16 + b div 16) mod 16 = b div 16"
    using b by (simp add: div_less_iff_less_mult)
  moreover have "(b mod 16 * 4 + c div 64) div 4 = b mod 16"
    using c by (simp add: div_less_iff_less_mult)
  moreover have "(b mod 16 * 4 + c div 64) mod 4 = c div 64"
    using c by (simp add: div_less_iff_less_mult)
  ultimately show ?case using "4.IH" [OF bs] by simp
qed

lemma length_sextets: "length (sextets bs) mod 4 \<noteq> 1"
  by (induction bs rule: sextets.induct) simp_all

lemma length_base64_encode: "length (base64_encode bs) mod 4 = 0"
  by (induction bs rule: base64_encode.induct) simp_all

lemma base64_encode_split:
  "\<exists>k \<le> 2. base64_encode bs = map b64_char (sextets bs) @ replicate k 0x3D"
proof (induction bs rule: sextets.induct)
  case 1
  show ?case by simp
next
  case (2 a)
  have "base64_encode [a] = map b64_char (sextets [a]) @ replicate 2 0x3D"
    by (simp add: numeral_2_eq_2)
  then show ?case by blast
next
  case (3 a b)
  have "base64_encode [a, b] = map b64_char (sextets [a, b]) @ replicate 1 0x3D" by simp
  then show ?case by (intro exI [of _ 1]) simp
next
  case (4 a b c bs)
  then obtain k where "k \<le> 2" "base64_encode bs = map b64_char (sextets bs) @ replicate k 0x3D"
    by blast
  then show ?case by (intro exI [of _ k]) simp
qed

lemma strip_padding_pad:
  assumes "xs = [] \<or> last xs \<noteq> 0x3D" and "k \<le> 2"
  shows "strip_padding (xs @ replicate k 0x3D) = xs"
proof -
  from assms(2) consider "k = 0" | "k = 1" | "k = 2" by linarith
  then show ?thesis
  proof cases
    case 1
    with assms(1) show ?thesis by (auto simp: strip_padding_def)
  next
    case 2
    with assms(1) show ?thesis by (auto simp: strip_padding_def)
  next
    case 3
    then have "xs @ replicate k 0x3D = xs @ [0x3D, 0x3D]" by (simp add: numeral_2_eq_2)
    then show ?thesis by (simp add: strip_padding_def butlast_append last_append)
  qed
qed

lemma atob_btoa:
  assumes "list_all (\<lambda>c. unat c \<le> 0xFF) s"
  shows "\<exists>tok. btoa s = Some tok \<and> atob tok = Some s"
proof -
  let ?bs = "map unat s"
  let ?xs = "map b64_char (sextets ?bs)"
  have bs: "list_all (\<lambda>b. b < 256) ?bs"
    using assms by (induction s) (auto simp: less_Suc_eq_le)
  have lt: "list_all (\<lambda>v. v < 64) (sextets ?bs)" using bs by (rule sextets_lt)
  obtain k where k: "k \<le> 2" and e: "base64_encode ?bs = ?xs @ replicate k 0x3D"
    using base64_encode_split [of ?bs] by blast
  have w1: "\<forall>x \<in> set ?xs. \<not> is_ascii_ws x"
    using lt by (auto simp: list_all_iff b64_char_props(3))
  have w2: "\<not> is_ascii_ws 0x3D" by (simp add: is_ascii_ws_def)
  have nows: "filter (\<lambda>c. \<not> is_ascii_ws c) (base64_encode ?bs) = base64_encode ?bs"
    unfolding e filter_id_conv using w1 w2 by auto
  have lst: "?xs = [] \<or> last ?xs \<noteq> 0x3D"
    using lt by (auto simp: last_map list_all_iff b64_char_props(4))
  have sp: "strip_padding (base64_encode ?bs) = ?xs"
    unfolding e using lst k by (rule strip_padding_pad)
  have l1: "length ?xs mod 4 \<noteq> 1" using length_sextets [of ?bs] by simp
  have ok: "list_all is_b64 ?xs" using lt by (auto simp: list_all_iff b64_char_props(1))
  have vals: "map b64_val ?xs = sextets ?bs"
    using lt by (auto simp: list_all_iff b64_char_props(2) map_idI)
  have dec: "map of_nat (base64_decode (sextets ?bs)) = s"
    unfolding decode_sextets [OF bs] by (simp add: map_idI)
  have "atob (base64_encode ?bs) = Some s"
    using nows sp l1 ok vals dec length_base64_encode [of ?bs]
    by (simp add: atob_def Let_def)
  with assms show ?thesis by (simp add: btoa_def)
qed

section \<open>String literals\<close>

lemma quote_body_pair:
  assumes "is_lead c" and "is_trail d"
  shows "quote_body (c # d # ds) = c # d # quote_body ds"
proof -
  have "55296 \<le> unat c" using assms(1) by (simp add: is_lead_def in_range_def)
  then have "c \<noteq> 0x08" "c \<noteq> 0x09" "c \<noteq> 0x0A" "c \<noteq> 0x0C" "c \<noteq> 0x0D" "c \<noteq> 0x22" "c \<noteq> 0x5C"
    "\<not> unat c < 0x20"
    by (auto simp: word_unat_eq_iff)
  with assms show ?thesis by simp
qed

lemma quote_body_single:
  assumes "\<not> (is_lead c \<and> cs \<noteq> [] \<and> is_trail (hd cs))"
  shows "quote_body (c # cs) = quote_unit c @ quote_body cs"
  using assms lead_not_trail [of c]
  by (cases cs) (auto simp: quote_unit_def)

lemma recompose16:
  "((n div 4096 * 16 + n div 256 mod 16) * 16 + n div 16 mod 16) * 16 + n mod 16 = (n::nat)"
proof -
  have x: "n div 256 = n div 16 div 16" using div_mult2_eq [of n 16 16] by simp
  have y: "n div 4096 = n div 16 div 16 div 16" using div_mult2_eq [of n 256 16] x by simp
  have e0: "n div 16 div 16 div 16 * 16 + n div 16 div 16 mod 16 = n div 16 div 16" by simp
  have e1: "n div 16 div 16 * 16 + n div 16 mod 16 = n div 16" by simp
  have e2: "n div 16 * 16 + n mod 16 = n" by simp
  show ?thesis unfolding x y using e0 e1 e2 by simp
qed

lemma parse_unicode_escape:
  "parse_string_body (UnicodeEscape c @ r) = cons_fst c (parse_string_body r)"
proof -
  define n where "n = unat c"
  have n: "n < 65536" unfolding n_def by (rule unat_lt16)
  have d: "n div 4096 < 16" "n div 256 mod 16 < 16" "n div 16 mod 16 < 16" "n mod 16 < 16"
    using n by (simp_all add: div_less_iff_less_mult)
  have h: "is_hex (hex_lower (n div 4096))" "is_hex (hex_lower (n div 256 mod 16))"
    "is_hex (hex_lower (n div 16 mod 16))" "is_hex (hex_lower (n mod 16))"
    using d by (simp_all add: hex_lower_props(1))
  have v: "hex_num [hex_lower (n div 4096), hex_lower (n div 256 mod 16),
      hex_lower (n div 16 mod 16), hex_lower (n mod 16)] = n"
    using d recompose16 [of n] by (simp add: hex_num_def hex_lower_props(2))
  have c: "of_nat n = c" by (simp add: n_def)
  show ?thesis
    using h v c by (simp add: UnicodeEscape_def Let_def n_def [symmetric])
qed

lemma parse_plain:
  "c \<noteq> 0x22 \<Longrightarrow> c \<noteq> 0x5C \<Longrightarrow> \<not> unat c < 0x20 \<Longrightarrow>
     parse_string_body (c # r) = cons_fst c (parse_string_body r)"
  by simp

lemma parse_quote_unit:
  "parse_string_body (quote_unit c @ r) = cons_fst c (parse_string_body r)"
  by (auto simp: quote_unit_def parse_unicode_escape simple_escape_def)

lemma parse_pair:
  assumes "is_lead c" and "is_trail d"
  shows "parse_string_body (c # d # r) = cons_fst c (cons_fst d (parse_string_body r))"
proof -
  have "55296 \<le> unat c" using assms(1) by (simp add: is_lead_def in_range_def)
  moreover have "55296 \<le> unat d" using assms(2) by (simp add: is_trail_def in_range_def)
  ultimately have "c \<noteq> 0x22" "c \<noteq> 0x5C" "\<not> unat c < 0x20" "d \<noteq> 0x22" "d \<noteq> 0x5C" "\<not> unat d < 0x20"
    by (auto simp: word_unat_eq_iff)
  then show ?thesis by simp
qed

lemma parse_quote_body:
  "parse_string_body (quote_body s @ 0x22 # rest) = Some (s, rest)"
proof (induction "length s" arbitrary: s rule: less_induct)
  case less
  show ?case
  proof (cases s)
    case Nil
    then show ?thesis by simp
  next
    case (Cons c cs)
    show ?thesis
    proof (cases "is_lead c \<and> cs \<noteq> [] \<and> is_trail (hd cs)")
      case True
      then obtain d ds where cs: "cs = d # ds" and c: "is_lead c" and d: "is_trail d"
        by (cases cs) auto
      have "parse_string_body (quote_body ds @ 0x22 # rest) = Some (ds, rest)"
        using less [of ds] Cons cs by simp
      then show ?thesis
        unfolding Cons cs quote_body_pair [OF c d]
        by (simp del: parse_string_body.simps add: parse_pair [OF c d] cons_fst_def)
    next
      case False
      have "parse_string_body (quote_body cs @ 0x22 # rest) = Some (cs, rest)"
        using less [of cs] Cons by simp
      then show ?thesis
        unfolding Cons quote_body_single [OF False]
        by (simp del: parse_string_body.simps add: parse_quote_unit cons_fst_def)
    qed
  qed
qed

lemma parse_QuoteJSONString:
  "QuoteJSONString s @ rest = 0x22 # quote_body s @ 0x22 # rest"
  by (simp add: QuoteJSONString_def)

section \<open>Parsing what was serialised\<close>

lemma value_head_props:
  assumes "value_head h"
  shows "\<not> is_json_ws h" and "h \<noteq> 0x5D" and "h \<noteq> 0x7D"
  using assms by (auto simp: value_head_def is_json_ws_def)

lemma skip_ws_head: "\<not> is_json_ws c \<Longrightarrow> skip_ws (c # cs) = c # cs"
  by (simp add: skip_ws_def)

lemma ws_facts:
  "\<not> is_json_ws 0x5B" "\<not> is_json_ws 0x7B" "\<not> is_json_ws 0x5D" "\<not> is_json_ws 0x7D"
  "\<not> is_json_ws 0x2C" "\<not> is_json_ws 0x3A" "\<not> is_json_ws 0x22"
  "\<not> is_json_ws 0x6E" "\<not> is_json_ws 0x74" "\<not> is_json_ws 0x66"
  by (simp_all add: is_json_ws_def)

lemma stringify_head:
  "wf_json v \<Longrightarrow> \<exists>h t. JSON_stringify v = h # t \<and> value_head h"
  by (cases v) (auto simp: value_head_def ascii_def QuoteJSONString_def)

lemma elems_head:
  "wf_elems vs \<Longrightarrow> vs \<noteq> [] \<Longrightarrow> \<exists>h t. stringify_elems vs = h # t \<and> value_head h"
proof (cases vs)
  case Nil
  assume "vs \<noteq> []"
  with Nil show ?thesis by simp
next
  case (Cons v ws)
  assume "wf_elems vs"
  with Cons have "wf_json v" by simp
  from stringify_head [OF this] obtain h t where "JSON_stringify v = h # t" "value_head h" by blast
  with Cons show ?thesis by (cases ws) auto
qed

lemma members_head:
  "ms \<noteq> [] \<Longrightarrow> \<exists>t. stringify_members ms = 0x22 # t"
proof (cases ms)
  case Nil
  assume "ms \<noteq> []"
  with Nil show ?thesis by simp
next
  case (Cons m ms')
  obtain k v where "m = (k, v)" by (cases m)
  with Cons show ?thesis by (cases ms') (auto simp: QuoteJSONString_def)
qed

lemma pv_null: "parse_value (Suc n) (ascii ''null'' @ r) = Some (JNull, r)"
  by (simp add: ascii_def skip_ws_head ws_facts)

lemma pv_true: "parse_value (Suc n) (ascii ''true'' @ r) = Some (JBool True, r)"
  by (simp add: ascii_def skip_ws_head ws_facts)

lemma pv_false: "parse_value (Suc n) (ascii ''false'' @ r) = Some (JBool False, r)"
  by (simp add: ascii_def skip_ws_head ws_facts)

lemma pv_str: "parse_value (Suc n) (QuoteJSONString s @ r) = Some (JStr s, r)"
  by (simp add: QuoteJSONString_def skip_ws_head ws_facts parse_quote_body
      del: parse_string_body.simps)

lemma pv_arr_empty: "parse_value (Suc n) (0x5B # 0x5D # r) = Some (JArr [], r)"
  by (simp add: skip_ws_head ws_facts)

lemma pv_obj_empty: "parse_value (Suc n) (0x7B # 0x7D # r) = Some (JObj [], r)"
  by (simp add: skip_ws_head ws_facts)

lemma pv_arr:
  assumes "value_head h"
  shows "parse_value (Suc n) (0x5B # h # t) =
    (case parse_elems n (h # t) of None \<Rightarrow> None | Some (vs, r) \<Rightarrow> Some (JArr vs, r))"
  using value_head_props [OF assms]
  by (simp add: skip_ws_head ws_facts del: parse_elems.simps)

lemma pv_obj:
  "parse_value (Suc n) (0x7B # 0x22 # t) =
    (case parse_members n (0x22 # t) of None \<Rightarrow> None
     | Some (ms, r) \<Rightarrow> Some (JObj (build_object ms), r))"
  by (simp add: skip_ws_head ws_facts del: parse_members.simps)

lemma pe_last:
  assumes "parse_value n s = Some (v, 0x5D # r)"
  shows "parse_elems (Suc n) s = Some ([v], r)"
  using assms by (simp add: skip_ws_head ws_facts)

lemma pe_more:
  assumes "parse_value n s = Some (v, 0x2C # r)"
  shows "parse_elems (Suc n) s = cons_fst v (parse_elems n r)"
  using assms by (simp add: skip_ws_head ws_facts)

lemma pm_last:
  assumes "parse_value n s = Some (v, 0x7D # r)"
  shows "parse_members (Suc n) (QuoteJSONString k @ 0x3A # s) = Some ([(k, v)], r)"
  using assms
  by (simp add: QuoteJSONString_def skip_ws_head ws_facts parse_quote_body
      del: parse_string_body.simps)

lemma pm_more:
  assumes "parse_value n s = Some (v, 0x2C # r)"
  shows "parse_members (Suc n) (QuoteJSONString k @ 0x3A # s) = cons_fst (k, v) (parse_members n r)"
  using assms
  by (simp add: QuoteJSONString_def skip_ws_head ws_facts parse_quote_body
      del: parse_string_body.simps)

lemma obj_put_new:
  assumes "fst m \<notin> set (map fst kvs)" and "array_index (fst m) = None"
  shows "obj_put kvs m = kvs @ [m]"
  using assms by (simp add: obj_put_def)

lemma build_object_append:
  "distinct (map fst (acc @ ms)) \<Longrightarrow> list_all (\<lambda>k. array_index k = None) (map fst ms) \<Longrightarrow>
     foldl obj_put acc ms = acc @ ms"
proof (induction ms arbitrary: acc)
  case Nil
  show ?case by simp
next
  case (Cons m ms)
  from Cons.prems have new: "fst m \<notin> set (map fst acc)" and idx: "array_index (fst m) = None"
    and d: "distinct (map fst ((acc @ [m]) @ ms))"
    and rest: "list_all (\<lambda>k. array_index k = None) (map fst ms)"
    by auto
  show ?case using Cons.IH [OF d rest] obj_put_new [OF new idx] by simp
qed

lemma build_object_id:
  "distinct (map fst ms) \<Longrightarrow> list_all (\<lambda>k. array_index k = None) (map fst ms) \<Longrightarrow>
     build_object ms = ms"
  using build_object_append [of "[]" ms] by (simp add: build_object_def)

lemma parse_stringify:
  shows "wf_json v \<Longrightarrow> need v \<le> n \<Longrightarrow> parse_value n (JSON_stringify v @ r) = Some (v, r)"
    and "wf_elems vs \<Longrightarrow> vs \<noteq> [] \<Longrightarrow> need_elems vs \<le> n \<Longrightarrow>
           parse_elems n (stringify_elems vs @ 0x5D # r) = Some (vs, r)"
    and "wf_members ms \<Longrightarrow> ms \<noteq> [] \<Longrightarrow> need_members ms \<le> n \<Longrightarrow>
           parse_members n (stringify_members ms @ 0x7D # r) = Some (ms, r)"
proof (induction v and vs and ms arbitrary: n r and n r and n r
    rule: JSON_stringify_stringify_elems_stringify_members.induct)
  case 1
  then obtain m where "n = Suc m" by (cases n) auto
  then show ?case by (simp add: pv_null del: parse_value.simps)
next
  case (2 b)
  then obtain m where "n = Suc m" by (cases n) auto
  then show ?case by (simp add: pv_true pv_false del: parse_value.simps)
next
  case (3 x)
  then show ?case by simp
next
  case (4 s)
  then obtain m where "n = Suc m" by (cases n) auto
  then show ?case by (simp add: pv_str del: parse_value.simps)
next
  case (5 vs)
  from "5.prems" obtain m where n: "n = Suc m" and m: "need_elems vs \<le> m" and wf: "wf_elems vs"
    by (cases n) auto
  show ?case
  proof (cases "vs = []")
    case True
    then show ?thesis by (simp add: n pv_arr_empty del: parse_value.simps)
  next
    case False
    from elems_head [OF wf False] obtain h t where h: "stringify_elems vs = h # t" "value_head h"
      by blast
    have "parse_elems m (stringify_elems vs @ 0x5D # r) = Some (vs, r)"
      using "5.IH" [OF wf False m] .
    then show ?thesis
      using pv_arr [OF h(2), of m "t @ 0x5D # r"] by (simp add: n h(1) del: parse_value.simps)
  qed
next
  case (6 kvs)
  from "6.prems" obtain m where n: "n = Suc m" and m: "need_members kvs \<le> m"
    and wf: "wf_members kvs" and d: "distinct (map fst kvs)"
    and i: "list_all (\<lambda>k. array_index k = None) (map fst kvs)"
    by (cases n) auto
  show ?case
  proof (cases "kvs = []")
    case True
    then show ?thesis by (simp add: n pv_obj_empty del: parse_value.simps)
  next
    case False
    from members_head [OF False] obtain t where h: "stringify_members kvs = 0x22 # t" by blast
    have "parse_members m (stringify_members kvs @ 0x7D # r) = Some (kvs, r)"
      using "6.IH" [OF wf False m] .
    then show ?thesis
      using pv_obj [of m "t @ 0x7D # r"] build_object_id [OF d i]
      by (simp add: n h del: parse_value.simps)
  qed
next
  case 7
  then show ?case by simp
next
  case (8 v)
  from "8.prems" obtain m where n: "n = Suc m" and m: "need v \<le> m" and wf: "wf_json v"
    by (cases n) auto
  have "parse_value m (JSON_stringify v @ 0x5D # r) = Some (v, 0x5D # r)"
    using "8.IH" [OF wf m] .
  then show ?case unfolding n stringify_elems.simps by (rule pe_last)
next
  case (9 v w vs)
  from "9.prems" obtain m where n: "n = Suc m" and m: "need v \<le> m" "need_elems (w # vs) \<le> m"
    and wf: "wf_json v" "wf_elems (w # vs)"
    by (cases n) auto
  let ?rest = "stringify_elems (w # vs) @ 0x5D # r"
  have "parse_value m (JSON_stringify v @ 0x2C # ?rest) = Some (v, 0x2C # ?rest)"
    using "9.IH"(1) [OF wf(1) m(1)] .
  then have "parse_elems (Suc m) (JSON_stringify v @ 0x2C # ?rest) = cons_fst v (parse_elems m ?rest)"
    by (rule pe_more)
  moreover have "parse_elems m ?rest = Some (w # vs, r)"
    using "9.IH"(2) [OF wf(2) _ m(2)] by simp
  ultimately show ?case by (simp add: n cons_fst_def del: parse_elems.simps)
next
  case 10
  then show ?case by simp
next
  case (11 k v)
  from "11.prems" obtain m where n: "n = Suc m" and m: "need v \<le> m" and wf: "wf_json v"
    by (cases n) auto
  have "parse_value m (JSON_stringify v @ 0x7D # r) = Some (v, 0x7D # r)"
    using "11.IH" [OF wf m] .
  then have "parse_members (Suc m) (QuoteJSONString k @ 0x3A # JSON_stringify v @ 0x7D # r)
      = Some ([(k, v)], r)"
    by (rule pm_last)
  then show ?case by (simp add: n del: parse_members.simps)
next
  case (12 k v m' ms)
  from "12.prems" obtain m where n: "n = Suc m" and m: "need v \<le> m" "need_members (m' # ms) \<le> m"
    and wf: "wf_json v" "wf_members (m' # ms)"
    by (cases n) auto
  let ?rest = "stringify_members (m' # ms) @ 0x7D # r"
  have "parse_value m (JSON_stringify v @ 0x2C # ?rest) = Some (v, 0x2C # ?rest)"
    using "12.IH"(1) [OF wf(1) m(1)] .
  then have "parse_members (Suc m) (QuoteJSONString k @ 0x3A # JSON_stringify v @ 0x2C # ?rest)
      = cons_fst (k, v) (parse_members m ?rest)"
    by (rule pm_more)
  moreover have "parse_members m ?rest = Some (m' # ms, r)"
    using "12.IH"(2) [OF wf(2) _ m(2)] by simp
  ultimately show ?case by (simp add: n cons_fst_def del: parse_members.simps)
qed

lemma length_quote: "2 \<le> length (QuoteJSONString s)"
  by (simp add: QuoteJSONString_def)

lemma need_le_length:
  shows "wf_json v \<Longrightarrow> need v \<le> length (JSON_stringify v)"
    and "wf_elems vs \<Longrightarrow> need_elems vs \<le> Suc (length (stringify_elems vs))"
    and "wf_members ms \<Longrightarrow> need_members ms \<le> Suc (length (stringify_members ms))"
proof (induction v and vs and ms
    rule: JSON_stringify_stringify_elems_stringify_members.induct)
  case (2 b)
  show ?case by (simp add: ascii_def)
next
  case (4 s)
  show ?case using length_quote [of s] by simp
next
  case (11 k v)
  then show ?case using length_quote [of k] by simp
next
  case (12 k v m ms)
  then show ?case using length_quote [of k] by simp
qed (simp_all add: ascii_def)

lemma JSON_parse_stringify:
  assumes "wf_json v"
  shows "JSON_parse (JSON_stringify v) = Some v"
proof -
  have "parse_value (length (JSON_stringify v)) (JSON_stringify v @ []) = Some (v, [])"
    using assms need_le_length(1) [OF assms] by (rule parse_stringify(1))
  then show ?thesis by (simp add: JSON_parse_def skip_ws_def)
qed

section \<open>The serialised text is well-formed\<close>

lemma well_formed_append: "well_formed a \<Longrightarrow> well_formed (a @ b) = well_formed b"
proof (induction a rule: well_formed.induct)
  case 1
  show ?case by simp
next
  case (2 c cs)
  show ?case
  proof (cases "is_lead c")
    case True
    with "2.prems" obtain d ds where cs: "cs = d # ds" and d: "is_trail d" and wf: "well_formed ds"
      by (cases cs) auto
    from "2.IH"(1) [OF True cs] d wf have "well_formed (ds @ b) = well_formed b" by simp
    then show ?thesis using True d by (simp add: cs)
  next
    case False
    with "2.prems" have nt: "\<not> is_trail c" and wf: "well_formed cs" by auto
    from "2.IH"(2) [OF False] wf have "well_formed (cs @ b) = well_formed b" by simp
    then show ?thesis using False nt by simp
  qed
qed

lemma not_surrogate_ascii: "unat c < 128 \<Longrightarrow> \<not> is_lead c \<and> \<not> is_trail c"
  by (simp add: is_lead_def is_trail_def in_range_def)

lemma well_formed_ascii: "list_all (\<lambda>c. unat c < 128) s \<Longrightarrow> well_formed s"
  by (induction s) (simp_all add: not_surrogate_ascii)

lemma well_formed_UnicodeEscape: "well_formed (UnicodeEscape c)"
proof -
  define n where "n = unat c"
  have n: "n < 65536" unfolding n_def by (rule unat_lt16)
  have d: "n div 4096 < 16" "n div 256 mod 16 < 16" "n div 16 mod 16 < 16" "n mod 16 < 16"
    using n by (simp_all add: div_less_iff_less_mult)
  show ?thesis
    using d by (intro well_formed_ascii)
      (simp add: UnicodeEscape_def Let_def n_def [symmetric] hex_lower_props(3))
qed

lemma well_formed_quote_unit: "well_formed (quote_unit c)"
  by (auto simp: quote_unit_def well_formed_UnicodeEscape is_lead_def is_trail_def in_range_def)

lemma well_formed_quote_body: "well_formed (quote_body s)"
proof (induction "length s" arbitrary: s rule: less_induct)
  case less
  show ?case
  proof (cases s)
    case Nil
    then show ?thesis by simp
  next
    case (Cons c cs)
    show ?thesis
    proof (cases "is_lead c \<and> cs \<noteq> [] \<and> is_trail (hd cs)")
      case True
      then obtain d ds where cs: "cs = d # ds" and c: "is_lead c" and d: "is_trail d"
        by (cases cs) auto
      have "well_formed (quote_body ds)" using less [of ds] Cons cs by simp
      then show ?thesis unfolding Cons cs quote_body_pair [OF c d] using c d by simp
    next
      case False
      have "well_formed (quote_body cs)" using less [of cs] Cons by simp
      then show ?thesis
        unfolding Cons quote_body_single [OF False]
        by (simp add: well_formed_append [OF well_formed_quote_unit])
    qed
  qed
qed

lemma well_formed_QuoteJSONString: "well_formed (QuoteJSONString s)"
proof -
  have "well_formed (quote_body s @ [0x22])"
    using well_formed_append [OF well_formed_quote_body, of s "[0x22]"]
    by (simp add: is_lead_def is_trail_def in_range_def)
  then show ?thesis by (simp add: QuoteJSONString_def is_lead_def is_trail_def in_range_def)
qed

lemma wf_bracket:
  assumes "well_formed s" and "unat a < 128" and "unat b < 128"
  shows "well_formed (a # s @ [b])"
proof -
  have "well_formed [b]" using assms(3) by (simp add: not_surrogate_ascii)
  then have "well_formed (s @ [b])" using well_formed_append [OF assms(1)] by simp
  then show ?thesis using assms(2) by (simp add: not_surrogate_ascii)
qed

lemma wf_join:
  assumes "well_formed s" and "well_formed t" and "unat a < 128"
  shows "well_formed (s @ a # t)"
proof -
  have "well_formed (a # t)" using assms(2,3) by (simp add: not_surrogate_ascii)
  then show ?thesis using well_formed_append [OF assms(1)] by simp
qed

lemma well_formed_stringify:
  shows "wf_json v \<Longrightarrow> well_formed (JSON_stringify v)"
    and "wf_elems vs \<Longrightarrow> well_formed (stringify_elems vs)"
    and "wf_members ms \<Longrightarrow> well_formed (stringify_members ms)"
proof (induction v and vs and ms
    rule: JSON_stringify_stringify_elems_stringify_members.induct)
  case 1
  show ?case by (simp add: ascii_def is_lead_def is_trail_def in_range_def)
next
  case (2 b)
  show ?case by (simp add: ascii_def is_lead_def is_trail_def in_range_def)
next
  case (3 n)
  then show ?case by simp
next
  case (4 s)
  show ?case by (simp add: well_formed_QuoteJSONString)
next
  case (5 vs)
  then have "well_formed (stringify_elems vs)" by simp
  then have "well_formed (0x5B # stringify_elems vs @ [0x5D])" by (rule wf_bracket) simp_all
  then show ?case by (simp del: well_formed.simps)
next
  case (6 kvs)
  then have "well_formed (stringify_members kvs)" by simp
  then have "well_formed (0x7B # stringify_members kvs @ [0x7D])" by (rule wf_bracket) simp_all
  then show ?case by (simp del: well_formed.simps)
next
  case 7
  show ?case by simp
next
  case (8 v)
  then show ?case by simp
next
  case (9 v w vs)
  then have "well_formed (JSON_stringify v)" "well_formed (stringify_elems (w # vs))" by simp_all
  then have "well_formed (JSON_stringify v @ 0x2C # stringify_elems (w # vs))"
    by (rule wf_join) simp
  then show ?case by (simp del: well_formed.simps)
next
  case 10
  show ?case by simp
next
  case (11 k v)
  then have "well_formed (JSON_stringify v)" by simp
  with well_formed_QuoteJSONString have "well_formed (QuoteJSONString k @ 0x3A # JSON_stringify v)"
    by (rule wf_join) simp
  then show ?case by (simp del: well_formed.simps)
next
  case (12 k v m ms)
  then have "well_formed (JSON_stringify v)" "well_formed (stringify_members (m # ms))" by simp_all
  then have "well_formed (JSON_stringify v @ 0x2C # stringify_members (m # ms))"
    by (rule wf_join) simp
  with well_formed_QuoteJSONString
  have "well_formed (QuoteJSONString k @ 0x3A # JSON_stringify v @ 0x2C # stringify_members (m # ms))"
    by (rule wf_join) simp
  then show ?case by (simp del: well_formed.simps)
qed

section \<open>Tracker states as values\<close>

lemma id_str_inj: "id_str a = id_str b \<Longrightarrow> a = b"
  by (cases a; cases b) (simp_all add: ascii_def)

lemma role_str_inj: "role_str a = role_str b \<Longrightarrow> a = b"
  by (cases a; cases b) (simp_all add: ascii_def)

lemma array_index_letter: "\<not> is_digit c \<Longrightarrow> array_index (c # cs) = None"
  by (simp add: array_index_def)

lemma id_str_no_index: "array_index (id_str a) = None"
  by (cases a) (simp_all add: ascii_def array_index_letter is_digit_def in_range_def)

lemma wf_entry: "wf_json (js_of_entry e)"
  by (simp add: js_of_entry_def ascii_def array_index_letter is_digit_def in_range_def)

lemma wf_log: "wf_elems (map js_of_entry es)"
  by (induction es) (simp_all add: wf_entry)

lemma wf_completed_members: "wf_members (map (\<lambda>(k, v). (id_str k, JStr v)) kvs)"
  by (induction kvs) auto

lemma completed_keys:
  "map fst (map (\<lambda>(k, v). (id_str k, JStr v)) kvs) = map id_str (map fst kvs)"
  by (induction kvs) auto

lemma wf_completed:
  assumes "distinct (map fst kvs)"
  shows "wf_json (JObj (map (\<lambda>(k, v). (id_str k, JStr v)) kvs))"
proof -
  have "inj_on id_str (set (map fst kvs))" by (rule inj_onI) (rule id_str_inj)
  with assms have "distinct (map id_str (map fst kvs))"
    unfolding distinct_map [of id_str "map fst kvs"] by blast
  moreover have "list_all (\<lambda>k. array_index k = None) (map id_str (map fst kvs))"
    by (simp add: list_all_iff id_str_no_index)
  ultimately show ?thesis
    unfolding wf_json.simps completed_keys using wf_completed_members [of kvs] by blast
qed

lemma wf_state: "valid_state s \<Longrightarrow> wf_json (js_of_state s)"
  unfolding valid_state_def js_of_state_def
  using wf_completed [of "completed s"] wf_log [of "log s"]
  by (simp add: ascii_def array_index_letter is_digit_def in_range_def)

section \<open>The bound on nested calls is never what makes a parse fail\<close>

lemma cons_fst_Some:
  "cons_fst x p = Some (ys, r) \<longleftrightarrow> (\<exists>xs. p = Some (xs, r) \<and> ys = x # xs)"
  by (cases p) (auto simp: cons_fst_def)

lemma length_skip_ws: "length (skip_ws s) \<le> length s"
  by (simp add: skip_ws_def length_dropWhile_le)

lemma scan_digits_length: "scan_digits s = Some (ds, r) \<Longrightarrow> length r < length s"
proof -
  assume a: "scan_digits s = Some (ds, r)"
  then have t: "takeWhile is_digit s \<noteq> []" and r: "r = dropWhile is_digit s"
    by (auto simp: scan_digits_def split: if_splits)
  have "length (takeWhile is_digit s) + length (dropWhile is_digit s) = length s"
    using takeWhile_dropWhile_id [of is_digit s] length_append [of "takeWhile is_digit s" "dropWhile is_digit s"]
    by simp
  with t r show ?thesis by (cases "takeWhile is_digit s") auto
qed

lemma scan_int_length: "scan_int s = Some (ds, r) \<Longrightarrow> length r < length s"
  by (auto simp: scan_int_def split: option.splits if_splits dest: scan_digits_length)

lemma scan_frac_length: "scan_frac s = Some (ds, r) \<Longrightarrow> length r \<le> length s"
  by (auto simp: scan_frac_def split: list.splits option.splits if_splits dest: scan_digits_length)

lemma scan_exp_length: "scan_exp s = Some (ds, r) \<Longrightarrow> length r \<le> length s"
  by (auto simp: scan_exp_def split: list.splits option.splits if_splits dest: scan_digits_length)

lemma parse_number_length:
  assumes "parse_number s = Some (x, r)"
  shows "length r < length s"
proof -
  from assms obtain k i s1 f s2 e where
    i: "scan_int (drop k s) = Some (i, s1)" and f: "scan_frac s1 = Some (f, s2)"
    and e: "scan_exp s2 = Some (e, r)"
    by (auto simp: parse_number_def Let_def split: option.splits)
  have "length s1 < length s" using scan_int_length [OF i] by simp
  with scan_frac_length [OF f] scan_exp_length [OF e] show ?thesis by simp
qed

lemma parse_string_body_length:
  "parse_string_body s = Some (x, r) \<Longrightarrow> length r < length s"
proof (induction s arbitrary: x r rule: parse_string_body.induct)
  case 1
  then show ?case by simp
next
  case (2 c cs)
  show ?case
  proof (cases "c = 0x22")
    case True
    with "2.prems" show ?thesis by simp
  next
    case q: False
    show ?thesis
    proof (cases "c = 0x5C")
      case True
      with q "2.prems" obtain e es where cs: "cs = e # es" by (cases cs) auto
      show ?thesis
      proof (cases "e = 0x75")
        case u: True
        with q True cs "2.prems" obtain xs where
          h: "4 \<le> length es" "list_all is_hex (take 4 es)"
            "parse_string_body (drop 4 es) = Some (xs, r)"
          by (auto simp: cons_fst_Some split: if_splits)
        from "2.IH"(1) [OF q True cs u _ h(3)] h(1,2) have "length r < length (drop 4 es)" by simp
        then show ?thesis by (simp add: cs)
      next
        case nu: False
        with q True cs "2.prems" obtain w xs where
          h: "simple_escape e = Some w" "parse_string_body es = Some (xs, r)"
          by (auto simp: cons_fst_Some split: option.splits)
        from "2.IH"(2) [OF q True cs nu h(1) h(2)] show ?thesis by (simp add: cs)
      qed
    next
      case b: False
      with q "2.prems" obtain xs where
        h: "\<not> unat c < 0x20" "parse_string_body cs = Some (xs, r)"
        by (auto simp: cons_fst_Some split: if_splits)
      from "2.IH"(3) [OF q b h(1) h(2)] show ?thesis by simp
    qed
  qed
qed


lemma length_skip_ws_Cons: "skip_ws s = c # cs \<Longrightarrow> length cs < length s"
  using length_skip_ws [of s] by simp

lemma pv_object:
  "skip_ws s = 0x7B # cs \<Longrightarrow>
     parse_value (Suc n) s =
       (case skip_ws cs of
          [] \<Rightarrow> None
        | d # ds \<Rightarrow>
            if d = 0x7D then Some (JObj [], ds)
            else (case parse_members n cs of
                    None \<Rightarrow> None
                  | Some (ms, r) \<Rightarrow> Some (JObj (build_object ms), r)))"
  by simp

lemma pv_array:
  "skip_ws s = 0x5B # cs \<Longrightarrow>
     parse_value (Suc n) s =
       (case skip_ws cs of
          [] \<Rightarrow> None
        | d # ds \<Rightarrow>
            if d = 0x5D then Some (JArr [], ds)
            else (case parse_elems n cs of
                    None \<Rightarrow> None
                  | Some (vs, r) \<Rightarrow> Some (JArr vs, r)))"
  by simp

lemma pv_atom:
  "skip_ws s = c # cs \<Longrightarrow> c \<noteq> 0x7B \<Longrightarrow> c \<noteq> 0x5B \<Longrightarrow>
     parse_value (Suc n) s = parse_value (Suc 0) s"
  by simp

lemma pv_atom_length:
  assumes "skip_ws s = c # cs" and "c \<noteq> 0x7B" and "c \<noteq> 0x5B"
    and "parse_value (Suc 0) s = Some (v, r)"
  shows "length r < length s"
proof -
  have l: "length (c # cs) \<le> length s" using length_skip_ws [of s] assms(1) by simp
  have "length r < length (c # cs)"
    using assms
    by (auto split: if_splits option.splits
        dest!: parse_string_body_length parse_number_length)
  with l show ?thesis by simp
qed

lemma pe_SucE:
  assumes "parse_elems (Suc n) s = Some (vs, r)"
  obtains v r1 c cs where "parse_value n s = Some (v, r1)" and "skip_ws r1 = c # cs"
    and "(c = 0x2C \<and> (\<exists>ws. parse_elems n cs = Some (ws, r) \<and> vs = v # ws))
         \<or> (c = 0x5D \<and> vs = [v] \<and> r = cs)"
  using assms by (auto split: option.splits list.splits if_splits simp: cons_fst_Some)

lemma pe_step:
  "parse_value n s = Some (v, r1) \<Longrightarrow> skip_ws r1 = c # cs \<Longrightarrow>
     parse_elems (Suc n) s =
       (if c = 0x2C then cons_fst v (parse_elems n cs)
        else if c = 0x5D then Some ([v], cs) else None)"
  by simp

lemma pm_SucE:
  assumes "parse_members (Suc n) s = Some (ms, r)"
  obtains qs k r0 cs v r1 d ds where "skip_ws s = 0x22 # qs"
    and "parse_string_body qs = Some (k, r0)" and "skip_ws r0 = 0x3A # cs"
    and "parse_value n cs = Some (v, r1)" and "skip_ws r1 = d # ds"
    and "(d = 0x2C \<and> (\<exists>ws. parse_members n ds = Some (ws, r) \<and> ms = (k, v) # ws))
         \<or> (d = 0x7D \<and> ms = [(k, v)] \<and> r = ds)"
  using assms
  by (auto split: option.splits list.splits if_splits prod.splits simp: cons_fst_Some
      simp del: parse_string_body.simps)

lemma pm_step:
  "skip_ws s = 0x22 # qs \<Longrightarrow> parse_string_body qs = Some (k, r0) \<Longrightarrow>
   skip_ws r0 = 0x3A # cs \<Longrightarrow> parse_value n cs = Some (v, r1) \<Longrightarrow> skip_ws r1 = d # ds \<Longrightarrow>
     parse_members (Suc n) s =
       (if d = 0x2C then cons_fst (k, v) (parse_members n ds)
        else if d = 0x7D then Some ([(k, v)], ds) else None)"
  by (simp del: parse_string_body.simps)

lemma enough_vD:
  "enough_v n \<Longrightarrow> parse_value n s = Some (v, r) \<Longrightarrow>
     length r < length s \<and> (\<forall>m. length s - length r \<le> m \<longrightarrow> parse_value m s = Some (v, r))"
  unfolding enough_v_def by blast

lemma enough_eD:
  "enough_e n \<Longrightarrow> parse_elems n s = Some (vs, r) \<Longrightarrow>
     length r < length s \<and> (\<forall>m. length s - length r \<le> m \<longrightarrow> parse_elems m s = Some (vs, r))"
  unfolding enough_e_def by blast

lemma enough_mD:
  "enough_m n \<Longrightarrow> parse_members n s = Some (ms, r) \<Longrightarrow>
     length r < length s \<and> (\<forall>m. length s - length r \<le> m \<longrightarrow> parse_members m s = Some (ms, r))"
  unfolding enough_m_def by blast

lemma enough_v_Suc:
  assumes e: "enough_e n" and m: "enough_m n"
  shows "enough_v (Suc n)"
  unfolding enough_v_def
proof (intro allI impI)
  fix s v r
  assume a: "parse_value (Suc n) s = Some (v, r)"
  then obtain c cs where sk: "skip_ws s = c # cs" by (cases "skip_ws s") auto
  note ls = length_skip_ws_Cons [OF sk]
  consider (obj) "c = 0x7B" | (arr) "c = 0x5B" | (atom) "c \<noteq> 0x7B" "c \<noteq> 0x5B" by blast
  then show "length r < length s \<and> (\<forall>k. length s - length r \<le> k \<longrightarrow> parse_value k s = Some (v, r))"
  proof cases
    case obj
    note u = pv_object [OF sk [unfolded obj]]
    from a obtain d ds where sk2: "skip_ws cs = d # ds"
      unfolding u by (cases "skip_ws cs") auto
    note ld = length_skip_ws_Cons [OF sk2]
    show ?thesis
    proof (cases "d = 0x7D")
      case True
      with a have r: "r = ds" "v = JObj []" unfolding u by (simp_all add: sk2)
      have "length r < length s" using r ld ls by simp
      moreover have "parse_value k s = Some (v, r)" if "length s - length r \<le> k" for k
      proof -
        from that \<open>length r < length s\<close> obtain k' where "k = Suc k'" by (cases k) auto
        then show ?thesis using r True by (simp only: pv_object [OF sk [unfolded obj]]) (simp add: sk2)
      qed
      ultimately show ?thesis by blast
    next
      case False
      with a obtain ms where p: "parse_members n cs = Some (ms, r)" and v: "v = JObj (build_object ms)"
        unfolding u by (auto simp: sk2 split: option.splits)
      from enough_mD [OF m p] have lr: "length r < length cs"
        and en: "\<And>k. length cs - length r \<le> k \<Longrightarrow> parse_members k cs = Some (ms, r)" by blast+
      have "length r < length s" using lr ls by simp
      moreover have "parse_value k s = Some (v, r)" if "length s - length r \<le> k" for k
      proof -
        from that \<open>length r < length s\<close> obtain k' where k: "k = Suc k'" by (cases k) auto
        with that ls have "length cs - length r \<le> k'" by simp
        from en [OF this] show ?thesis
          using False v unfolding k by (simp only: pv_object [OF sk [unfolded obj]]) (simp add: sk2)
      qed
      ultimately show ?thesis by blast
    qed
  next
    case arr
    note u = pv_array [OF sk [unfolded arr]]
    from a obtain d ds where sk2: "skip_ws cs = d # ds"
      unfolding u by (cases "skip_ws cs") auto
    note ld = length_skip_ws_Cons [OF sk2]
    show ?thesis
    proof (cases "d = 0x5D")
      case True
      with a have r: "r = ds" "v = JArr []" unfolding u by (simp_all add: sk2)
      have "length r < length s" using r ld ls by simp
      moreover have "parse_value k s = Some (v, r)" if "length s - length r \<le> k" for k
      proof -
        from that \<open>length r < length s\<close> obtain k' where "k = Suc k'" by (cases k) auto
        then show ?thesis using r True by (simp only: pv_array [OF sk [unfolded arr]]) (simp add: sk2)
      qed
      ultimately show ?thesis by blast
    next
      case False
      with a obtain vs where p: "parse_elems n cs = Some (vs, r)" and v: "v = JArr vs"
        unfolding u by (auto simp: sk2 split: option.splits)
      from enough_eD [OF e p] have lr: "length r < length cs"
        and en: "\<And>k. length cs - length r \<le> k \<Longrightarrow> parse_elems k cs = Some (vs, r)" by blast+
      have "length r < length s" using lr ls by simp
      moreover have "parse_value k s = Some (v, r)" if "length s - length r \<le> k" for k
      proof -
        from that \<open>length r < length s\<close> obtain k' where k: "k = Suc k'" by (cases k) auto
        with that ls have "length cs - length r \<le> k'" by simp
        from en [OF this] show ?thesis
          using False v unfolding k by (simp only: pv_array [OF sk [unfolded arr]]) (simp add: sk2)
      qed
      ultimately show ?thesis by blast
    qed
  next
    case atom
    have a0: "parse_value (Suc 0) s = Some (v, r)" using a unfolding pv_atom [OF sk atom, of n] .
    have "length r < length s" using sk atom a0 by (rule pv_atom_length)
    moreover have "parse_value k s = Some (v, r)" if "length s - length r \<le> k" for k
    proof -
      from that \<open>length r < length s\<close> obtain k' where "k = Suc k'" by (cases k) auto
      then show ?thesis using a0 by (simp only: pv_atom [OF sk atom, of k'])
    qed
    ultimately show ?thesis by blast
  qed
qed

lemma enough_e_Suc:
  assumes v: "enough_v n" and e: "enough_e n"
  shows "enough_e (Suc n)"
  unfolding enough_e_def
proof (intro allI impI)
  fix s vs r
  assume a: "parse_elems (Suc n) s = Some (vs, r)"
  from a obtain x r1 c cs where p: "parse_value n s = Some (x, r1)" and sk: "skip_ws r1 = c # cs"
    and alt: "(c = 0x2C \<and> (\<exists>ws. parse_elems n cs = Some (ws, r) \<and> vs = x # ws))
         \<or> (c = 0x5D \<and> vs = [x] \<and> r = cs)"
    by (rule pe_SucE)
  from enough_vD [OF v p] have l1: "length r1 < length s"
    and en1: "\<And>k. length s - length r1 \<le> k \<Longrightarrow> parse_value k s = Some (x, r1)" by blast+
  note lc = length_skip_ws_Cons [OF sk]
  from alt show "length r < length s \<and> (\<forall>k. length s - length r \<le> k \<longrightarrow> parse_elems k s = Some (vs, r))"
  proof
    assume "c = 0x2C \<and> (\<exists>ws. parse_elems n cs = Some (ws, r) \<and> vs = x # ws)"
    then obtain ws where c: "c = 0x2C" and q: "parse_elems n cs = Some (ws, r)" and vs: "vs = x # ws"
      by blast
    from enough_eD [OF e q] have l2: "length r < length cs"
      and en2: "\<And>k. length cs - length r \<le> k \<Longrightarrow> parse_elems k cs = Some (ws, r)" by blast+
    have lr: "length r < length s" using l1 l2 lc by simp
    moreover have "parse_elems k s = Some (vs, r)" if "length s - length r \<le> k" for k
    proof -
      from that lr obtain k' where k: "k = Suc k'" by (cases k) auto
      have "length s - length r1 \<le> k'" using that k l1 l2 lc by simp
      from en1 [OF this] have p': "parse_value k' s = Some (x, r1)" .
      have "length cs - length r \<le> k'" using that k l1 l2 lc by simp
      from en2 [OF this] show ?thesis
        unfolding k pe_step [OF p' sk] by (simp add: c vs cons_fst_def)
    qed
    ultimately show ?thesis by blast
  next
    assume "c = 0x5D \<and> vs = [x] \<and> r = cs"
    then have c: "c = 0x5D" and vs: "vs = [x]" and r: "r = cs" by blast+
    have lr: "length r < length s" using l1 lc r by simp
    moreover have "parse_elems k s = Some (vs, r)" if "length s - length r \<le> k" for k
    proof -
      from that lr obtain k' where k: "k = Suc k'" by (cases k) auto
      have "length s - length r1 \<le> k'" using that k l1 lc r by simp
      from en1 [OF this] have p': "parse_value k' s = Some (x, r1)" .
      show ?thesis unfolding k pe_step [OF p' sk] by (simp add: c vs r)
    qed
    ultimately show ?thesis by blast
  qed
qed

lemma enough_m_Suc:
  assumes v: "enough_v n" and m: "enough_m n"
  shows "enough_m (Suc n)"
  unfolding enough_m_def
proof (intro allI impI)
  fix s ms r
  assume a: "parse_members (Suc n) s = Some (ms, r)"
  from a obtain qs k r0 cs x r1 d ds where sq: "skip_ws s = 0x22 # qs"
    and ps: "parse_string_body qs = Some (k, r0)" and sc: "skip_ws r0 = 0x3A # cs"
    and p: "parse_value n cs = Some (x, r1)" and sd: "skip_ws r1 = d # ds"
    and alt: "(d = 0x2C \<and> (\<exists>ws. parse_members n ds = Some (ws, r) \<and> ms = (k, x) # ws))
         \<or> (d = 0x7D \<and> ms = [(k, x)] \<and> r = ds)"
    by (rule pm_SucE)
  note lq = length_skip_ws_Cons [OF sq]
  note l0 = parse_string_body_length [OF ps]
  note lc = length_skip_ws_Cons [OF sc]
  note ld = length_skip_ws_Cons [OF sd]
  from enough_vD [OF v p] have l1: "length r1 < length cs"
    and en1: "\<And>j. length cs - length r1 \<le> j \<Longrightarrow> parse_value j cs = Some (x, r1)" by blast+
  from alt show "length r < length s \<and> (\<forall>j. length s - length r \<le> j \<longrightarrow> parse_members j s = Some (ms, r))"
  proof
    assume "d = 0x2C \<and> (\<exists>ws. parse_members n ds = Some (ws, r) \<and> ms = (k, x) # ws)"
    then obtain ws where d: "d = 0x2C" and q: "parse_members n ds = Some (ws, r)"
      and ms: "ms = (k, x) # ws" by blast
    from enough_mD [OF m q] have l2: "length r < length ds"
      and en2: "\<And>j. length ds - length r \<le> j \<Longrightarrow> parse_members j ds = Some (ws, r)" by blast+
    have lr: "length r < length s" using lq l0 lc l1 ld l2 by simp
    moreover have "parse_members j s = Some (ms, r)" if "length s - length r \<le> j" for j
    proof -
      from that lr obtain j' where j: "j = Suc j'" by (cases j) auto
      have "length cs - length r1 \<le> j'" using that j lq l0 lc l1 ld l2 by simp
      from en1 [OF this] have p': "parse_value j' cs = Some (x, r1)" .
      have "length ds - length r \<le> j'" using that j lq l0 lc l1 ld l2 by simp
      from en2 [OF this] show ?thesis
        unfolding j pm_step [OF sq ps sc p' sd] by (simp add: d ms cons_fst_def)
    qed
    ultimately show ?thesis by blast
  next
    assume "d = 0x7D \<and> ms = [(k, x)] \<and> r = ds"
    then have d: "d = 0x7D" and ms: "ms = [(k, x)]" and r: "r = ds" by blast+
    have lr: "length r < length s" using lq l0 lc l1 ld r by simp
    moreover have "parse_members j s = Some (ms, r)" if "length s - length r \<le> j" for j
    proof -
      from that lr obtain j' where j: "j = Suc j'" by (cases j) auto
      have "length cs - length r1 \<le> j'" using that j lq l0 lc l1 ld r by simp
      from en1 [OF this] have p': "parse_value j' cs = Some (x, r1)" .
      show ?thesis unfolding j pm_step [OF sq ps sc p' sd] by (simp add: d ms r)
    qed
    ultimately show ?thesis by blast
  qed
qed

lemma enough_all: "enough_v n \<and> enough_e n \<and> enough_m n"
proof (induction n)
  case 0
  show ?case by (simp add: enough_v_def enough_e_def enough_m_def)
next
  case (Suc n)
  then show ?case using enough_v_Suc enough_e_Suc enough_m_Suc by blast
qed

lemma JSON_parse_complete:
  assumes "parse_value n s = Some (v, r)" and "skip_ws r = []"
  shows "JSON_parse s = Some v"
proof -
  have "enough_v n" using enough_all by blast
  from enough_vD [OF this assms(1)] have "parse_value (length s) s = Some (v, r)" by simp
  with assms(2) show ?thesis by (simp add: JSON_parse_def)
qed

section \<open>The round trip of a snapshot\<close>

lemma utf8_units_octets: "well_formed t \<Longrightarrow> list_all (\<lambda>b. b < 256) (utf8_units t)"
proof (induction t rule: well_formed.induct)
  case 1
  show ?case by simp
next
  case (2 c cs)
  show ?case
  proof (cases "is_lead c")
    case True
    with "2.prems" obtain d ds where cs: "cs = d # ds" and d: "is_trail d" and wf: "well_formed ds"
      by (cases cs) auto
    have "list_all (\<lambda>b. b < 256) (utf8_units ds)" using "2.IH"(1) [OF True cs] d wf by simp
    moreover have "list_all (\<lambda>b. b < 256) (utf8 (pair_cp c d))"
      by (rule utf8_octets [OF pair_cp_range(2) [OF True d]])
    ultimately show ?thesis using True by (simp add: cs)
  next
    case False
    with "2.prems" have wf: "well_formed cs" by auto
    have "list_all (\<lambda>b. b < 256) (utf8_units cs)" using "2.IH"(2) [OF False] wf by simp
    moreover have "unat c < 0x110000" using unat_lt16 [of c] by simp
    then have "list_all (\<lambda>b. b < 256) (utf8 (unat c))" by (rule utf8_octets)
    ultimately show ?thesis using False by simp
  qed
qed

lemma octets_units:
  "list_all (\<lambda>b. b < 256) bs \<Longrightarrow> list_all (\<lambda>c. unat c \<le> 0xFF) (map of_nat bs :: jsstring)"
  by (induction bs) (simp_all add: unat_of_nat16)

lemma codec_round_trip:
  assumes "wf_json v"
  shows "\<exists>e tok. encodeURIComponent (JSON_stringify v) = Some e \<and> btoa (unescape e) = Some tok
           \<and> decode_token tok = Some v"
proof -
  let ?t = "JSON_stringify v"
  let ?b = "map of_nat (utf8_units ?t) :: jsstring"
  have wf: "well_formed ?t" using assms by (rule well_formed_stringify(1))
  from encode_utf8 [OF wf] obtain e where
    e: "encodeURIComponent ?t = Some e" "unescape e = ?b" by blast
  have "list_all (\<lambda>c. unat c \<le> 0xFF) ?b"
    using utf8_units_octets [OF wf] by (rule octets_units)
  from atob_btoa [OF this] obtain tok where tok: "btoa ?b = Some tok" "atob tok = Some ?b"
    by blast
  have "decode_token tok = Some v"
    using tok(2) decode_utf8 [OF wf] JSON_parse_stringify [OF assms]
    by (simp add: decode_token_def)
  with e tok(1) show ?thesis by simp
qed

lemma decode_token_empty: "decode_token [] = None"
  by (simp add: decode_token_def atob_def strip_padding_def escape_def JSON_parse_def)

lemma strip_state_prefix_token: "strip_state_prefix (ascii ''#state='' @ tok) = tok"
  by (simp add: strip_state_prefix_def ascii_def)

lemma bootstrap_token:
  assumes "decode_token tok = Some v"
  shows "bootstrap \<lparr> hash = ascii ''#state='' @ tok, searchParams = q \<rparr> ls = v"
proof -
  have "tok \<noteq> []" using assms decode_token_empty by auto
  with assms show ?thesis by (simp add: bootstrap_def strip_state_prefix_token)
qed

lemma js_of_entry_inj: "js_of_entry a = js_of_entry b \<Longrightarrow> a = b"
  by (cases a, cases b) (auto simp: js_of_entry_def dest: role_str_inj)

lemma js_of_state_inj:
  assumes "js_of_state a = js_of_state b"
  shows "a = b"
proof -
  have c: "map (\<lambda>(k, v). (id_str k, JStr v)) (completed a) = map (\<lambda>(k, v). (id_str k, JStr v)) (completed b)"
    and l: "map js_of_entry (log a) = map js_of_entry (log b)"
    and r: "incidentId a = incidentId b" "machineId a = machineId b" "machineName a = machineName b"
      "upn a = upn b" "bu a = bu b" "id_str (active a) = id_str (active b)" "readonly a = readonly b"
    using assms by (simp_all add: js_of_state_def)
  have "inj (\<lambda>(k, v). (id_str k, JStr v :: json))"
    by (rule injI) (auto dest: id_str_inj)
  then have c': "completed a = completed b" using c by (simp add: inj_map_eq_map)
  have "inj js_of_entry" by (rule injI) (rule js_of_entry_inj)
  then have l': "log a = log b" using l by (simp add: inj_map_eq_map)
  show ?thesis using r c' l' id_str_inj [of "active a" "active b"] by (cases a, cases b) simp
qed

lemma share_link:
  assumes "valid_state s" and "well_formed (incidentId s)" and "well_formed (machineId s)"
  shows "\<exists>i m tok. share origin pathname s =
           Some (origin @ pathname @ ascii ''?incidentId='' @ i @ ascii ''&machineId='' @ m
                 @ ascii ''#state='' @ tok)
         \<and> share_token s = Some tok"
proof -
  have "valid_state (s\<lparr>readonly := True\<rparr>)" using assms(1) by (simp add: valid_state_def)
  then have "wf_json (js_of_state (s\<lparr>readonly := True\<rparr>))" by (rule wf_state)
  from codec_round_trip [OF this] obtain e tok where
    "encodeURIComponent (JSON_stringify (js_of_state (s\<lparr>readonly := True\<rparr>))) = Some e"
    "btoa (unescape e) = Some tok"
    by blast
  then have t: "share_token s = Some tok" by (simp add: share_token_def)
  from encode_utf8 [OF assms(2)] obtain i where i: "encodeURIComponent (incidentId s) = Some i"
    by blast
  from encode_utf8 [OF assms(3)] obtain m where m: "encodeURIComponent (machineId s) = Some m"
    by blast
  have "share origin pathname s =
           Some (origin @ pathname @ ascii ''?incidentId='' @ i @ ascii ''&machineId='' @ m
                 @ ascii ''#state='' @ tok)"
    using t i m by (simp add: share_def)
  with t show ?thesis by blast
qed

text \<open>
  What opening a share link gives: the context fields and \<open>readonly\<close> of the shared
  state, with the progress of a fresh tracker.
\<close>

lemma js_of_state_fields:
  "get_field (js_of_state s) (ascii ''incidentId'') = Some (JStr (incidentId s))"
  "get_field (js_of_state s) (ascii ''machineId'') = Some (JStr (machineId s))"
  "get_field (js_of_state s) (ascii ''machineName'') = Some (JStr (machineName s))"
  "get_field (js_of_state s) (ascii ''upn'') = Some (JStr (upn s))"
  "get_field (js_of_state s) (ascii ''bu'') = Some (JStr (bu s))"
  "get_field (js_of_state s) (ascii ''active'') = Some (JStr (id_str (active s)))"
  "get_field (js_of_state s) (ascii ''readonly'') = Some (JBool (readonly s))"
  by (simp_all add: js_of_state_def ascii_def)

lemma initial_of_snapshot:
  "initial (js_of_state s) now =
     Inr \<lparr> incidentId = JStr (incidentId s), machineId = JStr (machineId s),
           machineName = JStr (machineName s), upn = JStr (upn s), bu = JStr (bu s),
           active = Started, completed = [(Started, now)],
           log = [\<lparr> ts = now, who = Operator, what = ascii ''Tracker created'' \<rparr>],
           readonly = readonly s \<rparr>"
proof -
  have "js_of_state s \<noteq> JNull" by (simp add: js_of_state_def)
  then show ?thesis
    by (simp add: initial_def js_of_state_fields DEFAULT_STEP_def)
qed

lemma mount_share_link:
  assumes "valid_state s"
  shows "\<exists>tok. share_token s = Some tok
    \<and> mount \<lparr> hash = ascii ''#state='' @ tok, searchParams = q \<rparr> ls now =
        Inr \<lparr> incidentId = JStr (incidentId s), machineId = JStr (machineId s),
              machineName = JStr (machineName s), upn = JStr (upn s), bu = JStr (bu s),
              active = Started, completed = [(Started, now)],
              log = [\<lparr> ts = now, who = Operator, what = ascii ''Tracker created'' \<rparr>],
              readonly = True \<rparr>"
proof -
  have "valid_state (s\<lparr>readonly := True\<rparr>)" using assms by (simp add: valid_state_def)
  then have "wf_json (js_of_state (s\<lparr>readonly := True\<rparr>))" by (rule wf_state)
  from codec_round_trip [OF this] obtain e tok where
    t: "encodeURIComponent (JSON_stringify (js_of_state (s\<lparr>readonly := True\<rparr>))) = Some e"
       "btoa (unescape e) = Some tok"
       "decode_token tok = Some (js_of_state (s\<lparr>readonly := True\<rparr>))"
    by blast
  have "share_token s = Some tok" using t(1,2) by (simp add: share_token_def)
  moreover have "mount \<lparr> hash = ascii ''#state='' @ tok, searchParams = q \<rparr> ls now =
        Inr \<lparr> incidentId = JStr (incidentId s), machineId = JStr (machineId s),
              machineName = JStr (machineName s), upn = JStr (upn s), bu = JStr (bu s),
              active = Started, completed = [(Started, now)],
              log = [\<lparr> ts = now, who = Operator, what = ascii ''Tracker created'' \<rparr>],
              readonly = True \<rparr>"
    unfolding mount_def bootstrap_token [OF t(3)] initial_of_snapshot by simp
  ultimately show ?thesis by blast
qed

text \<open>
  A seed made of the parameters of the address has strings in its context fields, as
  has a snapshot or a stored record of a state of the declared type: the first state is
  then of the declared type as well.
\<close>

lemma initial_of_url_seed:
  "\<exists>i m n u b. initial (url_seed url) now =
     Inr \<lparr> incidentId = JStr i, machineId = JStr m, machineName = JStr n, upn = JStr u, bu = JStr b,
           active = Started, completed = [(Started, now)],
           log = [\<lparr> ts = now, who = Operator, what = ascii ''Tracker created'' \<rparr>],
           readonly = False \<rparr>"
  by (simp add: initial_def url_seed_def DEFAULT_STEP_def ascii_def)

text \<open>
  Claim C4. For every valid state, whatever code units its text fields hold and whatever
  its \<open>readonly\<close> is, \<open>share\<close> produces a token, and decoding that token, alone
  or as the fragment \<open>#state=\<close>token in \<open>bootstrap\<close>, gives the object of the state
  with \<open>readonly\<close> true: the object of that state and of no other.
\<close>

theorem snapshot_round_trip:
  assumes "valid_state s"
  shows "\<exists>tok. share_token s = Some tok
           \<and> decode_token tok = Some (js_of_state (s\<lparr>readonly := True\<rparr>))
           \<and> bootstrap \<lparr> hash = ascii ''#state='' @ tok, searchParams = q \<rparr> ls
                = js_of_state (s\<lparr>readonly := True\<rparr>)
           \<and> (\<forall>s'. decode_token tok = Some (js_of_state s') \<longrightarrow> s' = s\<lparr>readonly := True\<rparr>)"
proof -
  have "valid_state (s\<lparr>readonly := True\<rparr>)" using assms by (simp add: valid_state_def)
  then have "wf_json (js_of_state (s\<lparr>readonly := True\<rparr>))" by (rule wf_state)
  from codec_round_trip [OF this] obtain e tok where
    t: "encodeURIComponent (JSON_stringify (js_of_state (s\<lparr>readonly := True\<rparr>))) = Some e"
       "btoa (unescape e) = Some tok"
       "decode_token tok = Some (js_of_state (s\<lparr>readonly := True\<rparr>))"
    by blast
  have "share_token s = Some tok" using t(1,2) by (simp add: share_token_def)
  moreover have "\<forall>s'. decode_token tok = Some (js_of_state s') \<longrightarrow> s' = s\<lparr>readonly := True\<rparr>"
    using t(3) js_of_state_inj by auto
  ultimately show ?thesis using t(3) bootstrap_token [OF t(3), of q ls] by blast
qed

theorem snapshot_round_trip_witness:
  "valid_state unicode_state
   \<and> (\<exists>tok. share_token unicode_state = Some tok
         \<and> decode_token tok = Some (js_of_state (unicode_state\<lparr>readonly := True\<rparr>)))"
proof -
  have h: "valid_state unicode_state"
    by (simp add: valid_state_def unicode_state_def example_state_def)
  show ?thesis using h snapshot_round_trip [OF h, of "\<lambda>k. None" Map.empty] by blast
qed

section \<open>Falling through the sources\<close>

lemma broken_token: "decode_token (ascii ''!'') = None"
  by (simp add: decode_token_def atob_def ascii_def is_ascii_ws_def)

lemma parse_empty_object: "JSON_parse (ascii ''{}'') = Some (JObj [])"
  by (simp add: JSON_parse_def ascii_def skip_ws_def is_json_ws_def)

lemma toKey_empty: "toKey [] [] = ascii ''unisov2::''"
  by (simp add: toKey_def ascii_def)

lemma stringify_state_nonempty: "JSON_stringify (js_of_state s) \<noteq> []"
  unfolding js_of_state_def JSON_stringify.simps by simp

text \<open>
  Claim C7, as stated, fails: the local store is consulted also when the \<open>incidentId\<close>
  and \<open>machineId\<close> parameters are absent. With a fragment that does not decode and no
  parameters at all, \<open>bootstrap\<close> returns the record that the store holds under
  \<open>unisov2::\<close>, the key of two empty identifiers.
\<close>

theorem bootstrap_empty_ids_counterexample:
  "decode_token (strip_state_prefix (hash bare_url)) = None
   \<and> searchParams bare_url (ascii ''incidentId'') = None
   \<and> searchParams bare_url (ascii ''machineId'') = None
   \<and> bootstrap bare_url [ascii ''unisov2::'' \<mapsto> JSON_stringify (js_of_state example_state)]
       = js_of_state example_state
   \<and> js_of_state example_state \<noteq> url_seed bare_url"
proof -
  have s: "strip_state_prefix (hash bare_url) = ascii ''!''"
    by (simp add: bare_url_def strip_state_prefix_def ascii_def)
  have d: "decode_token (strip_state_prefix (hash bare_url)) = None"
    unfolding s by (rule broken_token)
  have p: "searchParams bare_url k = None" for k by (simp add: bare_url_def)
  have "valid_state example_state" by (simp add: valid_state_def example_state_def)
  then have "wf_json (js_of_state example_state)" by (rule wf_state)
  then have j: "JSON_parse (JSON_stringify (js_of_state example_state)) = Some (js_of_state example_state)"
    by (rule JSON_parse_stringify)
  have b: "bootstrap bare_url [ascii ''unisov2::'' \<mapsto> JSON_stringify (js_of_state example_state)]
       = js_of_state example_state"
    using d by (simp add: bootstrap_def Let_def p toKey_empty j stringify_state_nonempty)
  have n: "js_of_state example_state \<noteq> url_seed bare_url"
    by (simp add: js_of_state_def url_seed_def)
  show ?thesis using d p b n by simp
qed

text \<open>
  Claim C7, amended. When the fragment holds a token that does not decode, \<open>bootstrap\<close>
  goes on to the local store: it looks up the key made from the \<open>incidentId\<close> and
  \<open>machineId\<close> parameters, each read as the empty string when absent and neither
  tested for being empty, and returns the parsed entry when there is a non-empty one
  that parses; when there is none, or it does not parse, it returns the object made of
  the five parameters, each the empty string when absent, without \<open>active\<close>,
  \<open>completed\<close>, \<open>log\<close> or \<open>readonly\<close>.
\<close>

theorem bootstrap_fallthrough:
  assumes "decode_token (strip_state_prefix (hash url)) = None"
  shows "bootstrap url ls =
          (case ls (toKey (opt_or (searchParams url (ascii ''incidentId'')) [])
                          (opt_or (searchParams url (ascii ''machineId'')) [])) of
             None \<Rightarrow> url_seed url
           | Some c \<Rightarrow>
               (if c = [] then url_seed url
                else case JSON_parse c of None \<Rightarrow> url_seed url | Some v \<Rightarrow> v))
       \<and> url_seed url =
           JObj [(ascii ''incidentId'', JStr (opt_or (searchParams url (ascii ''incidentId'')) [])),
                 (ascii ''machineId'', JStr (opt_or (searchParams url (ascii ''machineId'')) [])),
                 (ascii ''upn'', JStr (opt_or (searchParams url (ascii ''upn'')) [])),
                 (ascii ''bu'', JStr (opt_or (searchParams url (ascii ''bu'')) [])),
                 (ascii ''machineName'', JStr (opt_or (searchParams url (ascii ''machineName'')) []))]
       \<and> get_field (url_seed url) (ascii ''active'') = None
       \<and> get_field (url_seed url) (ascii ''completed'') = None
       \<and> get_field (url_seed url) (ascii ''log'') = None
       \<and> get_field (url_seed url) (ascii ''readonly'') = None"
proof -
  have b: "bootstrap url ls =
          (case ls (toKey (opt_or (searchParams url (ascii ''incidentId'')) [])
                          (opt_or (searchParams url (ascii ''machineId'')) [])) of
             None \<Rightarrow> url_seed url
           | Some c \<Rightarrow>
               (if c = [] then url_seed url
                else case JSON_parse c of None \<Rightarrow> url_seed url | Some v \<Rightarrow> v))"
    using assms by (simp add: bootstrap_def Let_def split: option.splits)
  have f: "get_field (url_seed url) (ascii ''active'') = None"
    "get_field (url_seed url) (ascii ''completed'') = None"
    "get_field (url_seed url) (ascii ''log'') = None"
    "get_field (url_seed url) (ascii ''readonly'') = None"
    by (simp_all add: url_seed_def ascii_def)
  show ?thesis using b f by (simp add: url_seed_def)
qed

theorem bootstrap_fallthrough_witness:
  "strip_state_prefix (hash broken_url) \<noteq> []
   \<and> decode_token (strip_state_prefix (hash broken_url)) = None
   \<and> bootstrap broken_url Map.empty =
       JObj [(ascii ''incidentId'', JStr (ascii ''I'')), (ascii ''machineId'', JStr (ascii ''M'')),
             (ascii ''upn'', JStr []), (ascii ''bu'', JStr []), (ascii ''machineName'', JStr [])]
   \<and> bootstrap broken_url [toKey (ascii ''I'') (ascii ''M'') \<mapsto> ascii ''{}''] = JObj []
   \<and> bootstrap broken_url [toKey (ascii ''I'') (ascii ''M'') \<mapsto> ascii ''{''] =
       JObj [(ascii ''incidentId'', JStr (ascii ''I'')), (ascii ''machineId'', JStr (ascii ''M'')),
             (ascii ''upn'', JStr []), (ascii ''bu'', JStr []), (ascii ''machineName'', JStr [])]"
proof -
  have s: "strip_state_prefix (hash broken_url) = ascii ''!''"
    by (simp add: broken_url_def strip_state_prefix_def ascii_def)
  have h1: "strip_state_prefix (hash broken_url) \<noteq> []" unfolding s by (simp add: ascii_def)
  have h2: "decode_token (strip_state_prefix (hash broken_url)) = None"
    unfolding s by (rule broken_token)
  have p: "searchParams broken_url (ascii ''incidentId'') = Some (ascii ''I'')"
    "searchParams broken_url (ascii ''machineId'') = Some (ascii ''M'')"
    "searchParams broken_url (ascii ''upn'') = None"
    "searchParams broken_url (ascii ''bu'') = None"
    "searchParams broken_url (ascii ''machineName'') = None"
    by (simp_all add: broken_url_def ascii_def)
  have o: "str_or (ascii ''I'') [] = ascii ''I''" "str_or (ascii ''M'') [] = ascii ''M''"
    by (simp_all add: str_or_def)
  have e: "ascii ''{}'' \<noteq> []" "ascii ''{'' \<noteq> []" by (simp_all add: ascii_def)
  have bad: "JSON_parse (ascii ''{'') = None"
    by (simp add: JSON_parse_def ascii_def skip_ws_def is_json_ws_def)
  show ?thesis
    using h1 h2
      bootstrap_fallthrough [OF h2, of Map.empty]
      bootstrap_fallthrough [OF h2, of "[toKey (ascii ''I'') (ascii ''M'') \<mapsto> ascii ''{}'']"]
      bootstrap_fallthrough [OF h2, of "[toKey (ascii ''I'') (ascii ''M'') \<mapsto> ascii ''{'']"]
    by (simp add: p o e parse_empty_object bad url_seed_def)
qed

end
